theory Spec2Isabelle
  imports Main "HOL-Library.Multiset"
begin

section \<open>Go values, keys and failures\<close>

text \<open>
  The service container of \<^verbatim>\<open>service.go\<close> stores values of type \<^verbatim>\<open>interface{}\<close> under keys of
  type \<^verbatim>\<open>interface{}\<close>. A value is the nil interface, a pointer to a service container, or a value
  of some other dynamic type (its type name and a payload). A key is a string, a hashable value of
  another dynamic type, or a value of an unhashable dynamic type (slice, map, function), on which
  every map access panics.
\<close>

type_synonym tyname = string
type_synonym addr = nat

datatype goval =
    Nil
  | ContainerPtr addr
  | Obj tyname nat

datatype key =
    StrKey string
  | TypedKey tyname nat
  | Unhashable tyname

text \<open>
  The errors built with \<^verbatim>\<open>fmt.Errorf\<close>, one constructor for each format string:
  \<^item> \<open>NoService k\<close>: no service registered to key k;
  \<^item> \<open>NotALogger\<close>: logger instance is not a nacelle.Logger;
  \<^item> \<open>DuplicateKey k\<close>: duplicate service key k;
  \<^item> \<open>FieldInvalid n\<close>: field n is invalid;
  \<^item> \<open>FieldCannotSet n\<close>: field n can not be set;
  \<^item> \<open>BadOptionalTag n\<close>: field n has an invalid optional tag;
  \<^item> \<open>NotAssignable n t\<close>: field n cannot be assigned a value of type t.
\<close>

datatype error =
    NoService key
  | NotALogger
  | DuplicateKey key
  | FieldInvalid string
  | FieldCannotSet string
  | BadOptionalTag string
  | NotAssignable string tyname

datatype panic =
    NilDereference
  | UnhashableKey tyname
  | ErrorPanic error
  | ZeroValueType
  | ConvertPanic
  | CloseOfClosedChannel

text \<open>
  The outcome of a method that mutates: it returns a result or panics, and in both cases leaves a
  state behind.
\<close>

datatype ('r, 's) outcome =
    Returns 'r 's
  | Panics panic 's

fun final :: "('r, 's) outcome \<Rightarrow> 's" where
  "final (Returns r s) = s"
| "final (Panics p s) = s"

text \<open>
  The method sets and the conversion rules of the Go types are not part of the container; they are
  parameters: which dynamic types implement \<^verbatim>\<open>Logger\<close>, \<^verbatim>\<open>reflect.Type.ConvertibleTo\<close>, and
  \<^verbatim>\<open>reflect.Value.Convert\<close> (which may panic although the types are convertible).
\<close>

record typesys =
  isLogger :: "tyname \<Rightarrow> bool"
  ConvertibleTo :: "tyname \<Rightarrow> tyname \<Rightarrow> bool"
  Convert :: "goval \<Rightarrow> tyname \<Rightarrow> goval option"

definition containerType :: tyname where
  "containerType = ''*nacelle.ServiceContainer''"

fun typeOf :: "goval \<Rightarrow> tyname option" where
  "typeOf Nil = None"
| "typeOf (ContainerPtr a) = Some containerType"
| "typeOf (Obj t n) = Some t"

text \<open>
  The type assertion \<^verbatim>\<open>service.(Logger)\<close>: it fails on the nil interface, and on a
  \<^verbatim>\<open>*ServiceContainer\<close>, whose method set (Get, GetLogger, MustGet, Set, MustSet, Inject) has
  none of the methods of \<^verbatim>\<open>Logger\<close>.
\<close>

fun assertLogger :: "typesys \<Rightarrow> goval \<Rightarrow> bool" where
  "assertLogger ts Nil = False"
| "assertLogger ts (ContainerPtr a) = False"
| "assertLogger ts (Obj t n) = isLogger ts t"


section \<open>The service container\<close>

text \<open>
  A \<^verbatim>\<open>ServiceContainer\<close> is used through a pointer, and stores a pointer to itself. The heap holds
  the \<^verbatim>\<open>services\<close> map of every container allocated so far; a container pointer is an index into
  it, and an index outside the heap stands for the nil pointer.
\<close>

type_synonym services = "key \<rightharpoonup> goval"
type_synonym heap = "services list"

definition deref :: "heap \<Rightarrow> addr \<Rightarrow> services option" where
  "deref h c = (if c < length h then Some (h ! c) else None)"

text \<open>\<^verbatim>\<open>c.services[key]\<close>: dereference the receiver, then hash the key, then look it up.\<close>

definition mapaccess :: "heap \<Rightarrow> addr \<Rightarrow> key \<Rightarrow> panic + goval option" where
  "mapaccess h c k =
     (case deref h c of
        None \<Rightarrow> Inl NilDereference
      | Some m \<Rightarrow>
          (case k of
             Unhashable t \<Rightarrow> Inl (UnhashableKey t)
           | _ \<Rightarrow> Inr (m k)))"

definition Get :: "heap \<Rightarrow> addr \<Rightarrow> key \<Rightarrow> panic + (error + goval)" where
  "Get h c k =
     (case mapaccess h c k of
        Inl p \<Rightarrow> Inl p
      | Inr None \<Rightarrow> Inr (Inl (NoService k))
      | Inr (Some service) \<Rightarrow> Inr (Inr service))"

definition MustGet :: "heap \<Rightarrow> addr \<Rightarrow> key \<Rightarrow> panic + goval" where
  "MustGet h c k =
     (case Get h c k of
        Inl p \<Rightarrow> Inl p
      | Inr (Inl err) \<Rightarrow> Inl (ErrorPanic err)
      | Inr (Inr v) \<Rightarrow> Inr v)"

definition Set :: "typesys \<Rightarrow> heap \<Rightarrow> addr \<Rightarrow> key \<Rightarrow> goval \<Rightarrow> (error option, heap) outcome" where
  "Set ts h c k service =
     (if k = StrKey ''logger'' \<and> \<not> assertLogger ts service then Returns (Some NotALogger) h
      else
        (case mapaccess h c k of
           Inl p \<Rightarrow> Panics p h
         | Inr (Some old) \<Rightarrow> Returns (Some (DuplicateKey k)) h
         | Inr None \<Rightarrow> Returns None (h[c := (h ! c)(k \<mapsto> service)])))"

definition MustSet :: "typesys \<Rightarrow> heap \<Rightarrow> addr \<Rightarrow> key \<Rightarrow> goval \<Rightarrow> (unit, heap) outcome" where
  "MustSet ts h c k v =
     (case Set ts h c k v of
        Panics p h' \<Rightarrow> Panics p h'
      | Returns (Some err) h' \<Rightarrow> Panics (ErrorPanic err) h'
      | Returns None h' \<Rightarrow> Returns () h')"

text \<open>
  \<^verbatim>\<open>NewServiceContainer\<close> allocates a container with an empty map and registers the container
  under the key \<^verbatim>\<open>"container"\<close>, dropping the error that \<^verbatim>\<open>Set\<close> returns.
\<close>

definition NewServiceContainer :: "typesys \<Rightarrow> heap \<Rightarrow> (addr, heap) outcome" where
  "NewServiceContainer ts h =
     (let container = length h;
          h1 = h @ [Map.empty]
      in case Set ts h1 container (StrKey ''container'') (ContainerPtr container) of
           Panics p h2 \<Rightarrow> Panics p h2
         | Returns err h2 \<Rightarrow> Returns container h2)"


section \<open>Injection\<close>

text \<open>
  What \<^verbatim>\<open>Inject\<close> sees of its argument through \<^verbatim>\<open>reflect\<close>: a struct is its type name and its
  fields in declaration order, each with its name, its type, the values of its \<^verbatim>\<open>service\<close> and
  \<^verbatim>\<open>optional\<close> tags (\<^verbatim>\<open>Tag.Get\<close> gives the empty string for a tag that is absent), whether it is
  exported, and its current value.
\<close>

record field =
  fname :: string
  ftype :: tyname
  serviceTag :: string
  optionalTag :: string
  exported :: bool
  fvalue :: goval

datatype object =
    NilInterface
  | NilPointer tyname
  | PtrToStruct tyname "field list"
  | StructValue tyname "field list"
  | NonStruct tyname

text \<open>
  \<^verbatim>\<open>strconv.ParseBool\<close> accepts 1, t, T, TRUE, true, True, 0, f, F, FALSE, false, False.
\<close>

definition ParseBool :: "string \<Rightarrow> bool option" where
  "ParseBool s =
     (if s \<in> set [''1'', ''t'', ''T'', ''TRUE'', ''true'', ''True''] then Some True
      else if s \<in> set [''0'', ''f'', ''F'', ''FALSE'', ''false'', ''False''] then Some False
      else None)"

text \<open>
  \<^verbatim>\<open>loadServiceField\<close>. The value of a struct field obtained with \<^verbatim>\<open>Field(i)\<close> is always valid,
  so the first check never fires; it can be set when the struct is addressable (reached through a
  pointer) and the field is exported.
\<close>

definition loadServiceField ::
  "typesys \<Rightarrow> heap \<Rightarrow> addr \<Rightarrow> bool \<Rightarrow> field \<Rightarrow> (error option, field) outcome" where
  "loadServiceField ts h container addressable f =
     (if \<not> (addressable \<and> exported f) then Returns (Some (FieldCannotSet (fname f))) f
      else
        (case Get h container (StrKey (serviceTag f)) of
           Inl p \<Rightarrow> Panics p f
         | Inr (Inl err) \<Rightarrow>
             (if optionalTag f \<noteq> '''' then
                (case ParseBool (optionalTag f) of
                   None \<Rightarrow> Returns (Some (BadOptionalTag (fname f))) f
                 | Some val \<Rightarrow> if val then Returns None f else Returns (Some err) f)
              else Returns (Some err) f)
         | Inr (Inr v) \<Rightarrow>
             (case typeOf v of
                None \<Rightarrow> Returns (Some (NotAssignable (fname f) ''nil'')) f
              | Some t \<Rightarrow>
                  (if \<not> ConvertibleTo ts t (ftype f)
                   then Returns (Some (NotAssignable (fname f) t)) f
                   else
                     (case Convert ts v (ftype f) of
                        None \<Rightarrow> Panics ConvertPanic f
                      | Some v' \<Rightarrow> Returns None (f\<lparr>fvalue := v'\<rparr>))))))"

text \<open>
  The loop of \<^verbatim>\<open>Inject\<close> over the fields: a field with an empty \<^verbatim>\<open>service\<close> tag is skipped, the
  first error (or panic) ends the loop and leaves the remaining fields as they are.
\<close>

fun injectFields ::
  "typesys \<Rightarrow> heap \<Rightarrow> addr \<Rightarrow> bool \<Rightarrow> field list \<Rightarrow> (error option, field list) outcome" where
  "injectFields ts h c addressable [] = Returns None []"
| "injectFields ts h c addressable (f # fs) =
     (if serviceTag f = '''' then
        (case injectFields ts h c addressable fs of
           Returns r fs' \<Rightarrow> Returns r (f # fs')
         | Panics p fs' \<Rightarrow> Panics p (f # fs'))
      else
        (case loadServiceField ts h c addressable f of
           Panics p f' \<Rightarrow> Panics p (f' # fs)
         | Returns (Some err) f' \<Rightarrow> Returns (Some err) (f' # fs)
         | Returns None f' \<Rightarrow>
             (case injectFields ts h c addressable fs of
                Returns r fs' \<Rightarrow> Returns r (f' # fs')
              | Panics p fs' \<Rightarrow> Panics p (f' # fs'))))"

text \<open>
  \<^verbatim>\<open>Inject\<close>: \<^verbatim>\<open>reflect.Indirect\<close> follows one pointer; \<^verbatim>\<open>oi.Type()\<close> is evaluated before the kind
  is tested and panics on the zero \<^verbatim>\<open>reflect.Value\<close>, which is what the nil interface and a nil
  pointer give.
\<close>

fun Inject :: "typesys \<Rightarrow> heap \<Rightarrow> addr \<Rightarrow> object \<Rightarrow> (error option, object) outcome" where
  "Inject ts h c NilInterface = Panics ZeroValueType NilInterface"
| "Inject ts h c (NilPointer t) = Panics ZeroValueType (NilPointer t)"
| "Inject ts h c (NonStruct t) = Returns None (NonStruct t)"
| "Inject ts h c (PtrToStruct t fs) =
     (case injectFields ts h c True fs of
        Returns r fs' \<Rightarrow> Returns r (PtrToStruct t fs')
      | Panics p fs' \<Rightarrow> Panics p (PtrToStruct t fs'))"
| "Inject ts h c (StructValue t fs) =
     (case injectFields ts h c False fs of
        Returns r fs' \<Rightarrow> Returns r (StructValue t fs')
      | Panics p fs' \<Rightarrow> Panics p (StructValue t fs'))"

fun fieldsOf :: "object \<Rightarrow> field list" where
  "fieldsOf (PtrToStruct t fs) = fs"
| "fieldsOf (StructValue t fs) = fs"
| "fieldsOf obj = []"

fun isStruct :: "object \<Rightarrow> bool" where
  "isStruct (PtrToStruct t fs) = True"
| "isStruct (StructValue t fs) = True"
| "isStruct obj = False"

fun isNil :: "object \<Rightarrow> bool" where
  "isNil NilInterface = True"
| "isNil (NilPointer t) = True"
| "isNil obj = False"


section \<open>The worker\<close>

text \<open>
  Of a \<^verbatim>\<open>Worker\<close> (\<^verbatim>\<open>process/worker.go\<close>) the model keeps the halt channel, on which nothing is
  ever sent, so that all that matters is whether it has been closed; the \<^verbatim>\<open>sync.Once\<close>, which is
  whether its \<^verbatim>\<open>Do\<close> has run; the tick interval; and the state of the \<^verbatim>\<open>WorkerSpec\<close>. The
  method \<^verbatim>\<open>Tick\<close> of the spec is user code: a parameter \<open>tick\<close> that returns an error or nil and
  the next state of the spec.
\<close>

datatype chan = Open | Closed

record 's Worker =
  halt :: chan
  once :: bool
  tickInterval :: int
  spec :: 's

text \<open>\<^verbatim>\<open>newWorker\<close>: a fresh channel and a fresh \<^verbatim>\<open>sync.Once\<close>; the interval is set by \<^verbatim>\<open>Init\<close>.\<close>

definition newWorker :: "'s \<Rightarrow> 's Worker" where
  "newWorker s = \<lparr>halt = Open, once = False, tickInterval = 0, spec = s\<rparr>"

definition HaltChan :: "'s Worker \<Rightarrow> chan" where
  "HaltChan w = halt w"

text \<open>
  \<^verbatim>\<open>IsDone\<close>: a receive from the halt channel can proceed exactly when the channel is closed;
  otherwise the \<^verbatim>\<open>default\<close> case is taken.
\<close>

definition IsDone :: "'s Worker \<Rightarrow> bool" where
  "IsDone w = (case HaltChan w of Closed \<Rightarrow> True | Open \<Rightarrow> False)"

text \<open>
  \<^verbatim>\<open>Stop\<close>: \<^verbatim>\<open>once.Do\<close> runs its function on the first call only, and calls are serialised by the
  mutex of \<^verbatim>\<open>sync.Once\<close>, so that concurrent calls are calls one after the other. Closing a closed
  channel panics. The named result \<^verbatim>\<open>err\<close> is never assigned.
\<close>

definition Stop :: "'s Worker \<Rightarrow> ('e option, 's Worker) outcome" where
  "Stop w =
     (if once w then Returns None w
      else
        (case halt w of
           Closed \<Rightarrow> Panics CloseOfClosedChannel (w\<lparr>once := True\<rparr>)
         | Open \<Rightarrow> Returns None (w\<lparr>once := True, halt := Closed\<rparr>)))"

text \<open>
  The loop of \<^verbatim>\<open>Start\<close> runs against a schedule, the list of what happens around the worker:
  \<^item> \<open>StopCalled\<close>: another goroutine calls \<^verbatim>\<open>Stop\<close> between two \<^verbatim>\<open>select\<close> statements;
  \<^item> \<open>Select timer\<close>: a \<^verbatim>\<open>select\<close> statement completes. When the halt channel is open the only
    case that can proceed is the timer. When it is closed the halt case can proceed, and
    \<open>timer\<close> tells whether the timer case can proceed as well and is the one the runtime picks
    (Go picks at random among the cases that can proceed).
  A schedule that ends before the loop does leaves \<^verbatim>\<open>Start\<close> running.
\<close>

datatype step = StopCalled | Select bool

datatype ('r, 's) progress =
    Finished "('r, 's) outcome"
  | StillRunning 's

fun Start_loop ::
  "('s \<Rightarrow> 'e option \<times> 's) \<Rightarrow> step list \<Rightarrow> 's Worker \<Rightarrow> ('e option, 's Worker) progress" where
  "Start_loop tick [] w = StillRunning w"
| "Start_loop tick (StopCalled # es) w =
     (case (Stop w :: ('e option, 's Worker) outcome) of
        Panics p w' \<Rightarrow> Finished (Panics p w')
      | Returns r w' \<Rightarrow> Start_loop tick es w')"
| "Start_loop tick (Select timer # es) w =
     (if halt w = Closed \<and> \<not> timer then Finished (Returns None w)
      else
        (case tick (spec w) of
           (Some err, s') \<Rightarrow> Finished (Returns (Some err) (w\<lparr>spec := s'\<rparr>))
         | (None, s') \<Rightarrow> Start_loop tick es (w\<lparr>spec := s'\<rparr>)))"

text \<open>\<^verbatim>\<open>Start\<close>: the loop, then the deferred \<^verbatim>\<open>Stop\<close>, whose result is dropped.\<close>

definition Start ::
  "('s \<Rightarrow> 'e option \<times> 's) \<Rightarrow> step list \<Rightarrow> 's Worker \<Rightarrow> ('e option, 's Worker) progress" where
  "Start tick es w =
     (case Start_loop tick es w of
        StillRunning w' \<Rightarrow> StillRunning w'
      | Finished (Panics p w') \<Rightarrow>
          Finished (Panics p (final (Stop w' :: ('e option, 's Worker) outcome)))
      | Finished (Returns r w') \<Rightarrow>
          (case (Stop w' :: ('e option, 's Worker) outcome) of
             Panics p w'' \<Rightarrow> Finished (Panics p w'')
           | Returns r' w'' \<Rightarrow> Finished (Returns r w'')))"

text \<open>
  The states a worker built by \<^verbatim>\<open>newWorker\<close> can be in: the channel is closed only inside the
  \<^verbatim>\<open>Do\<close> of the \<^verbatim>\<open>sync.Once\<close>.
\<close>

definition consistent :: "'s Worker \<Rightarrow> bool" where
  "consistent w = (once w = (halt w = Closed))"

text \<open>The calls that can follow one another on a worker, and the state each leaves.\<close>

datatype call = CallStop | CallIsDone | CallHaltChan | CallStart "step list"

fun state_of :: "('r, 's) progress \<Rightarrow> 's" where
  "state_of (Finished out) = final out"
| "state_of (StillRunning s) = s"

fun after_call :: "('s \<Rightarrow> 'e option \<times> 's) \<Rightarrow> 's Worker \<Rightarrow> call \<Rightarrow> 's Worker" where
  "after_call tick w CallStop = final (Stop w :: ('e option, 's Worker) outcome)"
| "after_call tick w CallIsDone = w"
| "after_call tick w CallHaltChan = w"
| "after_call tick w (CallStart es) = state_of (Start tick es w)"

definition after_calls :: "('s \<Rightarrow> 'e option \<times> 's) \<Rightarrow> 's Worker \<Rightarrow> call list \<Rightarrow> 's Worker" where
  "after_calls tick w cs = foldl (after_call tick) w cs"


section \<open>The process runner\<close>

text \<open>
  The runner itself (\<^verbatim>\<open>NewProcessRunner\<close>, \<^verbatim>\<open>RegisterInitializer\<close>, \<^verbatim>\<open>RegisterProcess\<close>, \<^verbatim>\<open>Run\<close>
  and the options) is exercised by the tests of \<^verbatim>\<open>RunnerSuite\<close> but its source file is not among
  the sources; every definition of this section is modelled from sections 3 to 8 of the
  specification, and says so.
\<close>

text \<open>
  Modelled from the spec: the process contract of section 3, as far as the runner observes it. A
  unit has a concrete type, whose name is its default display name, an \<^verbatim>\<open>Init\<close> that returns an
  error (its string form) or nil, and a \<^verbatim>\<open>Stop\<close> that returns an error or nil. What its \<^verbatim>\<open>Start\<close>
  returns, and when, is not decided by the runner: it arrives as a signal (below).
\<close>

record Process =
  typeName :: string
  initResult :: "string option"
  stopResult :: "string option"

text \<open>
  Modelled from the spec: the registration metadata of section 3 (priority, default 0; display
  name, default synthesised from the type; silentExit, default false) and the options of
  section 4.1.
\<close>

record registration =
  proc :: Process
  pname :: string
  priority :: nat
  silentExit :: bool

datatype opt = WithPriority nat | WithProcessName string | WithSilentExit

fun apply_opt :: "registration \<Rightarrow> opt \<Rightarrow> registration" where
  "apply_opt m (WithPriority n) = m\<lparr>priority := n\<rparr>"
| "apply_opt m (WithProcessName s) = m\<lparr>pname := s\<rparr>"
| "apply_opt m WithSilentExit = m\<lparr>silentExit := True\<rparr>"

text \<open>
  Modelled from the spec: the registry of section 4.1, initializers and processes in registration
  order. A unit is identified by its position in its list.
\<close>

record Runner =
  initializers :: "Process list"
  processes :: "registration list"

definition NewProcessRunner :: Runner where
  "NewProcessRunner = \<lparr>initializers = [], processes = []\<rparr>"

definition RegisterInitializer :: "Runner \<Rightarrow> Process \<Rightarrow> Runner" where
  "RegisterInitializer r u = r\<lparr>initializers := initializers r @ [u]\<rparr>"

definition RegisterProcess :: "Runner \<Rightarrow> Process \<Rightarrow> opt list \<Rightarrow> Runner" where
  "RegisterProcess r u opts =
     r\<lparr>processes := processes r @
        [foldl apply_opt \<lparr>proc = u, pname = typeName u, priority = 0, silentExit = False\<rparr> opts]\<rparr>"

text \<open>
  Modelled from the spec: what a run of the runner does that its environment can observe: the
  calls of \<^verbatim>\<open>Init\<close>, \<^verbatim>\<open>Start\<close> and \<^verbatim>\<open>Stop\<close> it makes, the errors it emits on the error stream
  and the closing of the stream. A run is a list of phases; the events of a \<open>Par\<close> phase are
  issued by concurrent tasks and occur in any order, and a phase is over before the next begins
  (the happens-before guarantees of section 5).
\<close>

datatype unit_id = Initializer nat | Proc nat

datatype event =
    EvInit unit_id
  | EvStart nat
  | EvStop nat
  | EvEmit string
  | EvClose

datatype phase = Seq event | Par "event list"

fun phase_events :: "phase \<Rightarrow> event list" where
  "phase_events (Seq e) = [e]"
| "phase_events (Par es) = es"

definition events :: "phase list \<Rightarrow> event list" where
  "events ps = concat (map phase_events ps)"

text \<open>
  Modelled from the spec: the sequences of events a run can show, one for every order of the
  events inside each concurrent phase.
\<close>

fun inserts :: "'a \<Rightarrow> 'a list \<Rightarrow> 'a list list" where
  "inserts x [] = [[x]]"
| "inserts x (y # ys) = (x # y # ys) # map ((#) y) (inserts x ys)"

fun orders :: "'a list \<Rightarrow> 'a list list" where
  "orders [] = [[]]"
| "orders (x # xs) = concat (map (inserts x) (orders xs))"

fun linearizations :: "phase list \<Rightarrow> event list list" where
  "linearizations [] = [[]]"
| "linearizations (Seq e # ps) = map ((#) e) (linearizations ps)"
| "linearizations (Par es # ps) =
     concat (map (\<lambda>order. map ((@) order) (linearizations ps)) (orders es))"

text \<open>Modelled from the spec: the three emitted messages of section 6.\<close>

definition init_failure :: "string \<Rightarrow> string \<Rightarrow> string" where
  "init_failure n err = ''failed to initialize '' @ n @ '' ('' @ err @ '')''"

definition fatal_error :: "string \<Rightarrow> string \<Rightarrow> string" where
  "fatal_error n err = n @ '' returned a fatal error ('' @ err @ '')''"

definition stop_failure :: "string \<Rightarrow> string \<Rightarrow> string" where
  "stop_failure n err = n @ '' returned error from stop ('' @ err @ '')''"

text \<open>
  Modelled from the spec: the priority tiers that the registry computes at the entry of \<^verbatim>\<open>Run\<close>
  (section 4.1): the distinct priorities in ascending order and, for each, its processes in
  registration order.
\<close>

definition priorities :: "registration list \<Rightarrow> nat list" where
  "priorities ps = sort (remdups (map priority ps))"

definition tier :: "registration list \<Rightarrow> nat \<Rightarrow> (nat \<times> registration) list" where
  "tier ps n = filter (\<lambda>(i, p). priority p = n) (enumerate 0 ps)"

definition tiers :: "registration list \<Rightarrow> (nat \<times> registration) list list" where
  "tiers ps = map (tier ps) (priorities ps)"

text \<open>
  Modelled from the spec: the init of a list of units in order (section 4.2, initializer phase
  and init sub-phase): each \<^verbatim>\<open>Init\<close> is called in turn; the first failure is emitted and the
  remaining units are skipped. The result tells whether all succeeded.
\<close>

fun init_units :: "(unit_id \<times> string \<times> string option) list \<Rightarrow> phase list \<times> bool" where
  "init_units [] = ([], True)"
| "init_units ((u, n, None) # us) =
     (case init_units us of (tr, ok) \<Rightarrow> (Seq (EvInit u) # tr, ok))"
| "init_units ((u, n, Some err) # us) =
     ([Seq (EvInit u), Seq (EvEmit (init_failure n err))], False)"

definition initializer_units :: "Process list \<Rightarrow> (unit_id \<times> string \<times> string option) list" where
  "initializer_units us = map (\<lambda>(i, u). (Initializer i, typeName u, initResult u)) (enumerate 0 us)"

definition tier_units :: "(nat \<times> registration) list \<Rightarrow> (unit_id \<times> string \<times> string option) list" where
  "tier_units t = map (\<lambda>(i, p). (Proc i, pname p, initResult (proc p))) t"

text \<open>
  Modelled from the spec: the tier loop of section 4.2. For each tier in ascending order the
  processes are initialised in registration order and then started concurrently; the driver does
  not wait for a \<^verbatim>\<open>Start\<close> to return. A failed \<^verbatim>\<open>Init\<close> ends the loop: the tier is not started.
  The second argument and result is the list of the tiers started so far, the last one first.
\<close>

fun run_tiers ::
  "(nat \<times> registration) list list \<Rightarrow> (nat \<times> registration) list list \<Rightarrow>
   phase list \<times> (nat \<times> registration) list list \<times> bool" where
  "run_tiers [] started = ([], started, True)"
| "run_tiers (t # ts) started =
     (case init_units (tier_units t) of
        (tr, False) \<Rightarrow> (tr, started, False)
      | (tr, True) \<Rightarrow>
          (case run_tiers ts (t # started) of
             (tr', st, ok) \<Rightarrow> (tr @ Par (map (\<lambda>(i, p). EvStart i) t) # tr', st, ok)))"

text \<open>
  Modelled from the spec: what the supervisor of section 4.3 observes, in the order in which it
  observes it: a process returned from \<^verbatim>\<open>Start\<close> with an error or with nil, or \<^verbatim>\<open>Shutdown\<close> was
  called.
\<close>

datatype signal = Exit nat "string option" | Shutdown

datatype ending = Cascaded | Clean | Waiting

text \<open>
  Modelled from the spec: the supervisor of section 4.3, over the processes that are running.
  A return with an error is fatal; a return with nil is fatal unless the process was registered
  with silentExit, and then the process is finished and the supervisor goes on; \<^verbatim>\<open>Shutdown\<close>
  triggers the cascade and emits nothing. When every process has finished benignly the runner
  shuts down without a cascade. The first fatal event decides, and the signals are read up to
  it: what the supervisor observes once the cascade is triggered is outside the model. A signal
  for a process that is not running cannot occur and is passed over. When the signals end while
  a process runs, the supervisor is still waiting.
\<close>

fun supervise :: "(nat \<times> registration) list \<Rightarrow> signal list \<Rightarrow> phase list \<times> ending" where
  "supervise running [] = ([], if running = [] then Clean else Waiting)"
| "supervise running (Shutdown # env) = ([], if running = [] then Clean else Cascaded)"
| "supervise running (Exit i r # env) =
     (if running = [] then ([], Clean)
      else
        (case map_of running i of
           None \<Rightarrow> supervise running env
         | Some p \<Rightarrow>
             (case r of
                Some err \<Rightarrow> ([Seq (EvEmit (fatal_error (pname p) err))], Cascaded)
              | None \<Rightarrow>
                  if silentExit p then supervise (filter (\<lambda>(j, q). j \<noteq> i) running) env
                  else ([Seq (EvEmit (fatal_error (pname p) ''<nil>''))], Cascaded))))"

text \<open>
  Modelled from the spec: the shutdown cascade of section 4.4 over the started tiers, the last
  one started first: the processes of a tier are stopped concurrently, and all stops of a tier
  return before the next tier is stopped; the errors of the stops are collected, and emitted
  once the stops are done (scenario C of section 8: the four stops, then the error of the stop).
  The \<^verbatim>\<open>Start\<close> of a process that is stopped returns; the runner awaits these returns before
  it closes the stream and emits nothing for them (scenarios C and D list no such emission).
\<close>

definition stop_errors :: "(nat \<times> registration) list \<Rightarrow> event list" where
  "stop_errors t =
     concat (map (\<lambda>(i, p). case stopResult (proc p) of
                              None \<Rightarrow> []
                            | Some err \<Rightarrow> [EvEmit (stop_failure (pname p) err)]) t)"

definition cascade :: "(nat \<times> registration) list list \<Rightarrow> phase list" where
  "cascade started =
     map (\<lambda>t. Par (map (\<lambda>(i, p). EvStop i) t)) started @ map (\<lambda>t. Par (stop_errors t)) started"

text \<open>
  Modelled from the spec: \<^verbatim>\<open>Run\<close> (sections 4.2 to 4.4). The initializers run first; a failure
  among them skips every process. Then the tier loop; a failure of an \<^verbatim>\<open>Init\<close> in a tier leads to
  the cascade over the tiers started before. Then the supervisor, and the cascade when an event is
  fatal. The stream is closed when the cascade is over, or when every process has finished
  benignly; it stays open while the supervisor waits.
\<close>

record run =
  trace :: "phase list"
  ending :: ending

definition Run :: "Runner \<Rightarrow> signal list \<Rightarrow> run" where
  "Run r env =
     (case init_units (initializer_units (initializers r)) of
        (tr0, False) \<Rightarrow> \<lparr>trace = tr0 @ cascade [] @ [Seq EvClose], ending = Cascaded\<rparr>
      | (tr0, True) \<Rightarrow>
          (case run_tiers (tiers (processes r)) [] of
             (tr1, started, False) \<Rightarrow>
               \<lparr>trace = tr0 @ tr1 @ cascade started @ [Seq EvClose], ending = Cascaded\<rparr>
           | (tr1, started, True) \<Rightarrow>
               (case supervise (concat started) env of
                  (tr2, Cascaded) \<Rightarrow>
                    \<lparr>trace = tr0 @ tr1 @ tr2 @ cascade started @ [Seq EvClose], ending = Cascaded\<rparr>
                | (tr2, Clean) \<Rightarrow> \<lparr>trace = tr0 @ tr1 @ tr2 @ [Seq EvClose], ending = Clean\<rparr>
                | (tr2, Waiting) \<Rightarrow> \<lparr>trace = tr0 @ tr1 @ tr2, ending = Waiting\<rparr>)))"

definition runs :: "Runner \<Rightarrow> signal list \<Rightarrow> event list set" where
  "runs r env = set (linearizations (trace (Run r env)))"

section \<open>Sequences of calls, and the examples used below\<close>

text \<open>
  The calls a program can make on the containers of a heap, and the heap each leaves. \<^verbatim>\<open>Get\<close>,
  \<^verbatim>\<open>MustGet\<close> and \<^verbatim>\<open>Inject\<close> read the map of the container and never write it; a call that
  panics leaves the heap as it found it.
\<close>

datatype operation =
    OpGet addr key
  | OpMustGet addr key
  | OpSet addr key goval
  | OpMustSet addr key goval
  | OpInject addr object
  | OpNewServiceContainer

fun heap_after :: "typesys \<Rightarrow> heap \<Rightarrow> operation \<Rightarrow> heap" where
  "heap_after ts h (OpGet c k) = h"
| "heap_after ts h (OpMustGet c k) = h"
| "heap_after ts h (OpSet c k v) = final (Set ts h c k v)"
| "heap_after ts h (OpMustSet c k v) = final (MustSet ts h c k v)"
| "heap_after ts h (OpInject c obj) = h"
| "heap_after ts h OpNewServiceContainer = final (NewServiceContainer ts h)"

definition self_bound :: "heap \<Rightarrow> addr \<Rightarrow> bool" where
  "self_bound h c = (mapaccess h c (StrKey ''container'') = Inr (Some (ContainerPtr c)))"

text \<open>
  What \<^verbatim>\<open>Inject\<close> may do to a field: nothing when its \<^verbatim>\<open>service\<close> tag is empty, and otherwise
  at most replace its value.
\<close>

definition kept :: "field \<Rightarrow> field \<Rightarrow> bool" where
  "kept f f' = ((serviceTag f = '''' \<longrightarrow> f' = f) \<and> f'\<lparr>fvalue := fvalue f\<rparr> = f)"

definition stopped :: "'s Worker \<Rightarrow> bool" where
  "stopped w = (once w \<and> halt w = Closed)"

text \<open>
  A type system in which one type implements \<^verbatim>\<open>Logger\<close> and a value converts to its own type
  only; the container of \<^verbatim>\<open>NewServiceContainer\<close> on the empty heap, with a logger registered; and
  the struct \<^verbatim>\<open>Worker\<close> of \<^verbatim>\<open>process/worker.go\<close> as \<^verbatim>\<open>Inject\<close> sees it through a pointer.
\<close>

definition example_types :: typesys where
  "example_types =
     \<lparr>isLogger = (\<lambda>t. t = ''*log.ZapLogger''),
      ConvertibleTo = (\<lambda>s t. s = t),
      Convert = (\<lambda>v t. Some v)\<rparr>"

definition logger_heap :: heap where
  "logger_heap =
     final (Set example_types (final (NewServiceContainer example_types [])) 0
              (StrKey ''logger'') (Obj ''*log.ZapLogger'' 1))"

definition plain_field :: "string \<Rightarrow> tyname \<Rightarrow> field" where
  "plain_field n t =
     \<lparr>fname = n, ftype = t, serviceTag = '''', optionalTag = '''', exported = False, fvalue = Nil\<rparr>"

definition worker_struct :: "goval \<Rightarrow> object" where
  "worker_struct v =
     PtrToStruct ''process.Worker''
       [\<lparr>fname = ''Container'', ftype = containerType, serviceTag = ''container'',
         optionalTag = '''', exported = True, fvalue = v\<rparr>,
        plain_field ''configToken'' ''interface {}'',
        plain_field ''spec'' ''process.WorkerSpec'',
        plain_field ''clock'' ''glock.Clock'',
        plain_field ''halt'' ''chan struct {}'',
        plain_field ''once'' ''*sync.Once'',
        plain_field ''tickInterval'' ''time.Duration'']"

text \<open>A \<^verbatim>\<open>Tick\<close> that counts its calls and never fails.\<close>

definition counting :: "nat \<Rightarrow> string option \<times> nat" where
  "counting n = (None, Suc n)"

text \<open>A \<^verbatim>\<open>Tick\<close> that fails at its third call.\<close>

definition failing :: "nat \<Rightarrow> string option \<times> nat" where
  "failing n = (if n < 2 then (None, Suc n) else (Some ''tick failed'', n))"


section \<open>The scenarios of the runner tests\<close>

text \<open>
  The mock process of the tests (\<^verbatim>\<open>mockProcess\<close>): its \<^verbatim>\<open>Init\<close> and its \<^verbatim>\<open>Stop\<close> return what
  the test chose; its \<^verbatim>\<open>Start\<close> blocks until \<^verbatim>\<open>Stop\<close> is called, or returns the error the test
  chose, which the model receives as a signal.
\<close>

definition mock :: "string option \<Rightarrow> string option \<Rightarrow> Process" where
  "mock init_err stop_err =
     \<lparr>typeName = ''*nacelle.mockProcess'', initResult = init_err, stopResult = stop_err\<rparr>"

text \<open>
  \<^verbatim>\<open>TestRunOrder\<close>: three initializers, then proc1 to proc4 (positions 0 to 3) with the
  priorities 1, 2, 1, 2.
\<close>

definition scenarioA :: Runner where
  "scenarioA =
     (let r = NewProcessRunner;
          r = RegisterInitializer r (mock None None);
          r = RegisterInitializer r (mock None None);
          r = RegisterInitializer r (mock None None);
          r = RegisterProcess r (mock None None) [WithPriority 1];
          r = RegisterProcess r (mock None None) [WithPriority 2];
          r = RegisterProcess r (mock None None) [WithPriority 1];
          r = RegisterProcess r (mock None None) [WithPriority 2]
      in r)"

text \<open>
  \<^verbatim>\<open>TestRunNonBlockingProcesses\<close>: proc1 and proc2 are registered with silentExit. The test
  stops proc1, proc2 and proc3 in turn from outside, so that the \<^verbatim>\<open>Start\<close> of each returns nil.
\<close>

definition scenarioB :: Runner where
  "scenarioB =
     (let r = NewProcessRunner;
          r = RegisterProcess r (mock None None) [WithPriority 1, WithSilentExit];
          r = RegisterProcess r (mock None None) [WithPriority 2, WithSilentExit];
          r = RegisterProcess r (mock None None) [WithPriority 1];
          r = RegisterProcess r (mock None None) [WithPriority 2]
      in r)"

text \<open>
  \<^verbatim>\<open>TestProcessError\<close>: proc2 is named foo and its \<^verbatim>\<open>Stop\<close> fails; proc4 is named bar and its
  \<^verbatim>\<open>Start\<close> returns an error at once.
\<close>

definition scenarioC :: Runner where
  "scenarioC =
     (let r = NewProcessRunner;
          r = RegisterProcess r (mock None None) [WithPriority 1];
          r = RegisterProcess r (mock None (Some ''error in stop''))
                [WithPriority 2, WithProcessName ''foo''];
          r = RegisterProcess r (mock None None) [WithPriority 3];
          r = RegisterProcess r (mock None None) [WithPriority 4, WithProcessName ''bar'']
      in r)"

text \<open>
  \<^verbatim>\<open>TestInitializationError\<close>: five processes with the priorities 1, 2, 3, 3, 3; the \<^verbatim>\<open>Init\<close> of
  proc4 (position 3, named foo) fails.
\<close>

definition scenarioD :: Runner where
  "scenarioD =
     (let r = NewProcessRunner;
          r = RegisterProcess r (mock None None) [WithPriority 1];
          r = RegisterProcess r (mock None None) [WithPriority 2];
          r = RegisterProcess r (mock None None) [WithPriority 3];
          r = RegisterProcess r (mock (Some ''error in init'') None)
                [WithPriority 3, WithProcessName ''foo''];
          r = RegisterProcess r (mock None None) [WithPriority 3]
      in r)"


text \<open>Kinds of events, and the order of the stops of a cascade: no tier before a higher one.\<close>

fun is_init :: "event \<Rightarrow> bool" where
  "is_init (EvInit u) = True"
| "is_init e = False"

fun is_start :: "event \<Rightarrow> bool" where
  "is_start (EvStart i) = True"
| "is_start e = False"

fun is_stop :: "event \<Rightarrow> bool" where
  "is_stop (EvStop i) = True"
| "is_stop e = False"

fun is_emit :: "event \<Rightarrow> bool" where
  "is_emit (EvEmit m) = True"
| "is_emit e = False"

definition reverse_tier_order :: "registration list \<Rightarrow> event list \<Rightarrow> bool" where
  "reverse_tier_order ps tr =
     sorted_wrt (\<lambda>x y. \<forall>i j. x = EvStop i \<and> y = EvStop j \<longrightarrow> priority (ps ! j) \<le> priority (ps ! i)) tr"


text \<open>
  Notions used to state and prove the properties of a run: a process, and a tier, whose \<^verbatim>\<open>Init\<close>
  succeeds; the phases of a tier that is initialised and started; the phases before the
  supervisor takes over when every \<^verbatim>\<open>Init\<close> succeeds; the phases that end a run; and the order
  of events in which nothing follows the closing of the stream and no \<^verbatim>\<open>Start\<close> follows a
  \<^verbatim>\<open>Stop\<close>.
\<close>

definition proc_ok :: "nat \<times> registration \<Rightarrow> bool" where
  "proc_ok x = (initResult (proc (snd x)) = None)"

definition tier_ok :: "(nat \<times> registration) list \<Rightarrow> bool" where
  "tier_ok t = list_all proc_ok t"

definition started_phases :: "(nat \<times> registration) list \<Rightarrow> phase list" where
  "started_phases t =
     map (\<lambda>(i, p). Seq (EvInit (Proc i))) t @ [Par (map (\<lambda>(i, p). EvStart i) t)]"

definition driver :: "Runner \<Rightarrow> phase list" where
  "driver r =
     map (\<lambda>x. Seq (EvInit (fst x))) (initializer_units (initializers r))
       @ concat (map started_phases (tiers (processes r)))"

definition closing :: "ending \<Rightarrow> (nat \<times> registration) list list \<Rightarrow> phase list" where
  "closing e S =
     (case e of Cascaded \<Rightarrow> cascade (rev S) @ [Seq EvClose] | Clean \<Rightarrow> [Seq EvClose] | Waiting \<Rightarrow> [])"

definition in_order :: "event \<Rightarrow> event \<Rightarrow> bool" where
  "in_order x y = (x \<noteq> EvClose \<and> \<not> (is_stop x \<and> is_start y))"

text \<open>
  The sequences of events that the tests expect: the calls of \<^verbatim>\<open>Init\<close> and \<^verbatim>\<open>Start\<close> of
  \<^verbatim>\<open>TestRunOrder\<close>, given the order of the starts inside each of the two tiers; the run of
  \<^verbatim>\<open>TestProcessError\<close>; the run of \<^verbatim>\<open>TestInitializationError\<close>.
\<close>

definition orderA :: "event list \<Rightarrow> event list \<Rightarrow> event list" where
  "orderA s1 s2 =
     map EvInit [Initializer 0, Initializer 1, Initializer 2, Proc 0, Proc 2] @ s1
       @ map EvInit [Proc 1, Proc 3] @ s2"

definition traceC :: "event list" where
  "traceC =
     [EvInit (Proc 0), EvStart 0, EvInit (Proc 1), EvStart 1, EvInit (Proc 2), EvStart 2,
      EvInit (Proc 3), EvStart 3,
      EvEmit ''bar returned a fatal error (error in start)'',
      EvStop 3, EvStop 2, EvStop 1, EvStop 0,
      EvEmit ''foo returned error from stop (error in stop)'',
      EvClose]"

definition traceD :: "event list" where
  "traceD =
     [EvInit (Proc 0), EvStart 0, EvInit (Proc 1), EvStart 1, EvInit (Proc 2), EvInit (Proc 3),
      EvEmit ''failed to initialize foo (error in init)'',
      EvStop 1, EvStop 0,
      EvClose]"


text \<open>
  One of the sequences of events of \<^verbatim>\<open>TestRunNonBlockingProcesses\<close>, once proc1, proc2 and
  proc3 have returned.
\<close>

definition traceB :: "event list" where
  "traceB =
     [EvInit (Proc 0), EvInit (Proc 2), EvStart 2, EvStart 0,
      EvInit (Proc 1), EvInit (Proc 3), EvStart 1, EvStart 3,
      EvEmit ''*nacelle.mockProcess returned a fatal error (<nil>)'',
      EvStop 3, EvStop 1, EvStop 0, EvStop 2,
      EvClose]"


section \<open>Properties of the service container\<close>

lemma New_eq:
  "NewServiceContainer ts h =
     Returns (length h) (h @ [[StrKey ''container'' \<mapsto> ContainerPtr (length h)]])"
  by (simp add: NewServiceContainer_def Set_def mapaccess_def deref_def Let_def)

lemma logger_heap_eq:
  "logger_heap =
     [[StrKey ''container'' \<mapsto> ContainerPtr 0, StrKey ''logger'' \<mapsto> Obj ''*log.ZapLogger'' 1]]"
  unfolding logger_heap_def New_eq
  by (simp add: Set_def mapaccess_def deref_def example_types_def)

lemma Set_present:
  assumes "mapaccess h c k = Inr (Some old)"
  shows "Set ts h c k service =
     Returns (Some (if k = StrKey ''logger'' \<and> \<not> assertLogger ts service
                    then NotALogger else DuplicateKey k)) h"
  using assms by (simp add: Set_def)

text \<open>
  C6, as stated, fails: on a container that has a logger, \<^verbatim>\<open>Set("logger", 42)\<close> finds the key
  present and returns the error of the logger check, which is tested first, not the
  duplicate-key error.
\<close>

theorem Set_logger_present_counterexample:
  "mapaccess logger_heap 0 (StrKey ''logger'') = Inr (Some (Obj ''*log.ZapLogger'' 1))
   \<and> Set example_types logger_heap 0 (StrKey ''logger'') (Obj ''int'' 42)
       = Returns (Some NotALogger) logger_heap
   \<and> NotALogger \<noteq> DuplicateKey (StrKey ''logger'')"
  by (simp add: logger_heap_eq Set_def mapaccess_def deref_def example_types_def)

text \<open>
  C6, amended: whenever the key is already present in the container, \<^verbatim>\<open>Set\<close> returns a non-nil
  error and leaves the heap, hence the binding of the key, unchanged; the error is the
  duplicate-key error, except that for the key \<^verbatim>\<open>"logger"\<close> and a value that does not implement
  \<^verbatim>\<open>Logger\<close> it is the error of the logger check. \<^verbatim>\<open>Set\<close> with the key \<^verbatim>\<open>"logger"\<close> and such a
  value returns that error without modifying the container, whether the key is present or not.
\<close>

theorem Set_present_key:
  "(mapaccess h c k = Inr (Some old) \<longrightarrow>
      Set ts h c k service =
        Returns (Some (if k = StrKey ''logger'' \<and> \<not> assertLogger ts service
                       then NotALogger else DuplicateKey k)) h
      \<and> mapaccess (final (Set ts h c k service)) c k = Inr (Some old))
   \<and> (\<not> assertLogger ts service \<longrightarrow>
        Set ts h c (StrKey ''logger'') service = Returns (Some NotALogger) h)"
  by (simp add: Set_present) (simp add: Set_def)

theorem Set_present_key_witness:
  "mapaccess logger_heap 0 (StrKey ''container'') = Inr (Some (ContainerPtr 0))
   \<and> Set example_types logger_heap 0 (StrKey ''container'') (Obj ''int'' 42)
       = Returns (Some (DuplicateKey (StrKey ''container''))) logger_heap
   \<and> \<not> assertLogger example_types Nil
   \<and> Set example_types logger_heap 0 (StrKey ''logger'') Nil = Returns (Some NotALogger) logger_heap"
proof -
  have present: "mapaccess logger_heap 0 (StrKey ''container'') = Inr (Some (ContainerPtr 0))"
    by (simp add: logger_heap_eq mapaccess_def deref_def)
  have no_logger: "\<not> assertLogger example_types Nil"
    by simp
  from Set_present_key [of logger_heap 0 "StrKey ''container''" "ContainerPtr 0" example_types
      "Obj ''int'' 42"] present
  have "Set example_types logger_heap 0 (StrKey ''container'') (Obj ''int'' 42)
       = Returns (Some (DuplicateKey (StrKey ''container''))) logger_heap"
    by simp
  moreover from Set_present_key [of logger_heap 0 "StrKey ''container''" "ContainerPtr 0"
      example_types Nil] no_logger
  have "Set example_types logger_heap 0 (StrKey ''logger'') Nil
           = Returns (Some NotALogger) logger_heap"
    by simp
  ultimately show ?thesis
    using present no_logger by simp
qed

lemma self_bound_Set: "self_bound h c \<Longrightarrow> self_bound (final (Set ts h c' k v)) c"
  by (cases k; cases "c = c'")
     (auto simp: self_bound_def Set_def mapaccess_def deref_def nth_list_update
           split: option.splits if_splits)

lemma final_MustSet: "final (MustSet ts h c k v) = final (Set ts h c k v)"
  by (cases "Set ts h c k v") (auto simp: MustSet_def split: option.splits)

lemma self_bound_append: "self_bound h c \<Longrightarrow> self_bound (h @ h') c"
  by (auto simp: self_bound_def mapaccess_def deref_def nth_append split: if_splits)

lemma self_bound_after: "self_bound h c \<Longrightarrow> self_bound (heap_after ts h op) c"
  by (cases op) (simp_all add: self_bound_Set final_MustSet New_eq self_bound_append)

lemma self_bound_foldl: "self_bound h c \<Longrightarrow> self_bound (foldl (heap_after ts) h ops) c"
  by (induction ops arbitrary: h) (simp_all add: self_bound_after)

text \<open>
  C8: \<^verbatim>\<open>NewServiceContainer\<close> returns a container in which the key \<^verbatim>\<open>"container"\<close> is bound to
  the container itself, and after any sequence of calls on the containers of the heap
  \<^verbatim>\<open>Get("container")\<close> still returns the container, and \<^verbatim>\<open>Set\<close> with the key \<^verbatim>\<open>"container"\<close> fails
  with the duplicate-key error and changes nothing.
\<close>

theorem container_self_binding:
  "\<exists>c h1. NewServiceContainer ts h = Returns c h1
     \<and> (\<forall>ops v. Get (foldl (heap_after ts) h1 ops) c (StrKey ''container'')
                   = Inr (Inr (ContainerPtr c))
              \<and> Set ts (foldl (heap_after ts) h1 ops) c (StrKey ''container'') v
                   = Returns (Some (DuplicateKey (StrKey ''container'')))
                       (foldl (heap_after ts) h1 ops))"
proof -
  let ?c = "length h"
  let ?h1 = "h @ [[StrKey ''container'' \<mapsto> ContainerPtr ?c]]"
  have "self_bound ?h1 ?c"
    by (simp add: self_bound_def mapaccess_def deref_def)
  then have "self_bound (foldl (heap_after ts) ?h1 ops) ?c" for ops
    by (rule self_bound_foldl)
  then have
    "Get (foldl (heap_after ts) ?h1 ops) ?c (StrKey ''container'') = Inr (Inr (ContainerPtr ?c))
     \<and> Set ts (foldl (heap_after ts) ?h1 ops) ?c (StrKey ''container'') v
        = Returns (Some (DuplicateKey (StrKey ''container''))) (foldl (heap_after ts) ?h1 ops)"
    for ops v
    by (simp add: self_bound_def Get_def Set_def)
  then show ?thesis
    by (simp add: New_eq)
qed

theorem container_self_binding_witness:
  "NewServiceContainer example_types [] = Returns 0 [[StrKey ''container'' \<mapsto> ContainerPtr 0]]
   \<and> Get logger_heap 0 (StrKey ''container'') = Inr (Inr (ContainerPtr 0))
   \<and> Set example_types logger_heap 0 (StrKey ''container'') Nil
       = Returns (Some (DuplicateKey (StrKey ''container''))) logger_heap"
proof -
  have new: "NewServiceContainer example_types []
               = Returns 0 [[StrKey ''container'' \<mapsto> ContainerPtr 0]]"
    by (simp add: New_eq)
  have heap: "foldl (heap_after example_types) [[StrKey ''container'' \<mapsto> ContainerPtr 0]]
                [OpSet 0 (StrKey ''logger'') (Obj ''*log.ZapLogger'' 1)] = logger_heap"
    by (simp add: logger_heap_def new)
  from container_self_binding [of example_types "[]"] new
  have "\<forall>ops v. Get (foldl (heap_after example_types)
                       [[StrKey ''container'' \<mapsto> ContainerPtr 0]] ops) 0 (StrKey ''container'')
                   = Inr (Inr (ContainerPtr 0))
              \<and> Set example_types (foldl (heap_after example_types)
                       [[StrKey ''container'' \<mapsto> ContainerPtr 0]] ops) 0 (StrKey ''container'') v
                   = Returns (Some (DuplicateKey (StrKey ''container'')))
                       (foldl (heap_after example_types)
                          [[StrKey ''container'' \<mapsto> ContainerPtr 0]] ops)"
    by simp
  from this [rule_format, of "[OpSet 0 (StrKey ''logger'') (Obj ''*log.ZapLogger'' 1)]" Nil]
  show ?thesis
    unfolding heap using new by simp
qed

section \<open>Properties of injection\<close>

lemma loadServiceField_final:
  "final (loadServiceField ts h c a f) = f
   \<or> (\<exists>v. final (loadServiceField ts h c a f) = f\<lparr>fvalue := v\<rparr>)"
  by (auto simp: loadServiceField_def split: sum.splits option.splits)

lemma kept_refl: "kept f f"
  by (simp add: kept_def)

lemma injectFields_frame: "list_all2 kept fs (final (injectFields ts h c a fs))"
proof (induction fs)
  case Nil
  then show ?case by simp
next
  case (Cons f fs)
  show ?case
  proof (cases "serviceTag f = ''''")
    case True
    then show ?thesis
      using Cons by (cases "injectFields ts h c a fs") (simp_all add: kept_def)
  next
    case False
    have k: "kept f (final (loadServiceField ts h c a f))"
      using loadServiceField_final [of ts h c a f] False by (auto simp: kept_def)
    show ?thesis
    proof (cases "loadServiceField ts h c a f")
      case (Panics p f')
      then show ?thesis
        using k False by (simp add: list_all2_refl kept_refl)
    next
      case (Returns r f')
      show ?thesis
      proof (cases r)
        case (Some err)
        then show ?thesis
          using k False Returns by (simp add: list_all2_refl kept_refl)
      next
        case None
        then show ?thesis
          using k False Returns Cons by (cases "injectFields ts h c a fs") simp_all
      qed
    qed
  qed
qed

text \<open>
  C9, as stated, fails: for the nil interface (and for a nil pointer), which is not a struct,
  \<^verbatim>\<open>Inject\<close> does not return nil: \<^verbatim>\<open>oi.Type()\<close> panics on the zero \<^verbatim>\<open>reflect.Value\<close> before
  the kind is tested.
\<close>

theorem Inject_nil_counterexample:
  "\<not> isStruct NilInterface
   \<and> Inject example_types logger_heap 0 NilInterface = Panics ZeroValueType NilInterface
   \<and> \<not> isStruct (NilPointer ''*process.Worker'')
   \<and> Inject example_types logger_heap 0 (NilPointer ''*process.Worker'')
       = Panics ZeroValueType (NilPointer ''*process.Worker'')"
  by simp

text \<open>
  C9, amended: \<^verbatim>\<open>Inject\<close> modifies only struct fields whose \<^verbatim>\<open>service\<close> tag is non-empty, and of
  those only the value: every field without a \<^verbatim>\<open>service\<close> tag is left unchanged, whether
  \<^verbatim>\<open>Inject\<close> returns nil, returns an error or panics; and when the injected object is not nil and
  is not a struct (after one pointer indirection) \<^verbatim>\<open>Inject\<close> returns nil and changes nothing.
\<close>

theorem Inject_frame:
  "list_all2 kept (fieldsOf obj) (fieldsOf (final (Inject ts h c obj)))
   \<and> (\<not> isStruct obj \<and> \<not> isNil obj \<longrightarrow> Inject ts h c obj = Returns None obj)"
proof (cases obj)
  case (PtrToStruct t fs)
  then show ?thesis
    using injectFields_frame [of fs ts h c True]
    by (cases "injectFields ts h c True fs") simp_all
next
  case (StructValue t fs)
  then show ?thesis
    using injectFields_frame [of fs ts h c False]
    by (cases "injectFields ts h c False fs") simp_all
qed simp_all

lemma Inject_worker_struct:
  "Inject example_types logger_heap 0 (worker_struct Nil)
     = Returns None (worker_struct (ContainerPtr 0))"
  by (simp add: worker_struct_def plain_field_def loadServiceField_def Get_def mapaccess_def
      deref_def logger_heap_eq example_types_def)

theorem Inject_frame_witness:
  "Inject example_types logger_heap 0 (worker_struct Nil)
     = Returns None (worker_struct (ContainerPtr 0))
   \<and> list_all2 kept (fieldsOf (worker_struct Nil)) (fieldsOf (worker_struct (ContainerPtr 0)))
   \<and> drop 1 (fieldsOf (worker_struct (ContainerPtr 0))) = drop 1 (fieldsOf (worker_struct Nil))
   \<and> \<not> isStruct (NonStruct ''int'') \<and> \<not> isNil (NonStruct ''int'')
   \<and> Inject example_types logger_heap 0 (NonStruct ''int'') = Returns None (NonStruct ''int'')"
proof -
  from Inject_frame [of "worker_struct Nil" example_types logger_heap 0]
  have "list_all2 kept (fieldsOf (worker_struct Nil)) (fieldsOf (worker_struct (ContainerPtr 0)))"
    by (simp add: Inject_worker_struct)
  moreover from Inject_frame [of "NonStruct ''int''" example_types logger_heap 0]
  have "Inject example_types logger_heap 0 (NonStruct ''int'') = Returns None (NonStruct ''int'')"
    by simp
  ultimately show ?thesis
    by (simp add: Inject_worker_struct) (simp add: worker_struct_def)
qed


section \<open>Properties of the worker\<close>

lemma consistent_newWorker: "consistent (newWorker s)"
  by (simp add: consistent_def newWorker_def)

lemma Stop_consistent:
  "consistent w \<Longrightarrow> Stop w = Returns None (w\<lparr>once := True, halt := Closed\<rparr>)"
  by (cases "halt w") (auto simp: Stop_def consistent_def)

lemma Stop_stopped: "stopped w \<Longrightarrow> Stop w = Returns None w"
  by (simp add: Stop_def stopped_def)

lemma stopped_after_Stop: "consistent w \<Longrightarrow> stopped (final (Stop w))"
  by (simp add: Stop_consistent stopped_def)

lemma stopped_spec: "stopped w \<Longrightarrow> stopped (w\<lparr>spec := s\<rparr>)"
  by (simp add: stopped_def)

lemma consistent_spec: "consistent w \<Longrightarrow> consistent (w\<lparr>spec := s\<rparr>)"
  by (simp add: consistent_def)

lemma consistent_closed: "consistent w \<Longrightarrow> consistent (w\<lparr>once := True, halt := Closed\<rparr>)"
  by (simp add: consistent_def)

text \<open>The loop keeps the worker consistent and does not panic.\<close>

lemma Start_loop_consistent:
  "consistent w \<Longrightarrow>
     consistent (state_of (Start_loop tick es w))
     \<and> (\<forall>p w'. Start_loop tick es w \<noteq> Finished (Panics p w'))"
proof (induction es arbitrary: w)
  case Nil
  then show ?case by simp
next
  case (Cons e es)
  show ?case
  proof (cases e)
    case StopCalled
    then show ?thesis
      using Cons.IH [OF consistent_closed [OF Cons.prems]] Cons.prems
      by (simp add: Stop_consistent)
  next
    case (Select timer)
    then show ?thesis
      using Cons.IH [OF consistent_spec [OF Cons.prems]] Cons.prems
      by (auto simp: consistent_spec split: prod.splits option.splits)
  qed
qed

lemma Start_loop_stopped: "stopped w \<Longrightarrow> stopped (state_of (Start_loop tick es w))"
proof (induction es arbitrary: w)
  case Nil
  then show ?case by simp
next
  case (Cons e es)
  show ?case
  proof (cases e)
    case StopCalled
    then show ?thesis
      using Cons by (simp add: Stop_stopped)
  next
    case (Select timer)
    then show ?thesis
      using Cons.IH [OF stopped_spec [OF Cons.prems]] Cons.prems
      by (auto simp: stopped_spec split: prod.splits option.splits)
  qed
qed

lemma Start_loop_append:
  "Start_loop tick (es1 @ es2) w =
     (case Start_loop tick es1 w of
        StillRunning w' \<Rightarrow> Start_loop tick es2 w'
      | Finished out \<Rightarrow> Finished out)"
proof (induction es1 arbitrary: w)
  case Nil
  then show ?case by simp
next
  case (Cons e es1)
  then show ?case
    by (cases e) (auto split: outcome.splits prod.splits option.splits)
qed

lemma Start_returns_stopped:
  assumes "consistent w" and "Start tick es w = Finished (Returns r w')"
  shows "stopped w'"
proof -
  from assms(2) obtain r1 w1 where l: "Start_loop tick es w = Finished (Returns r1 w1)"
    by (auto simp: Start_def split: progress.splits outcome.splits)
  from Start_loop_consistent [OF assms(1), of tick es] l have c: "consistent w1"
    by simp
  from assms(2) l c have "w' = final (Stop w1 :: ('b option, 'a Worker) outcome)"
    by (simp add: Start_def Stop_consistent)
  then show ?thesis
    using stopped_after_Stop [OF c] by simp
qed

lemma Start_stopped:
  assumes "stopped w"
  shows "stopped (state_of (Start tick es w))"
proof -
  have s: "stopped (state_of (Start_loop tick es w))"
    using assms by (rule Start_loop_stopped)
  show ?thesis
  proof (cases "Start_loop tick es w")
    case (StillRunning w1)
    then show ?thesis
      using s by (simp add: Start_def)
  next
    case (Finished out)
    then show ?thesis
      using s by (cases out) (simp_all add: Start_def Stop_stopped)
  qed
qed

lemma after_call_stopped: "stopped w \<Longrightarrow> stopped (after_call tick w c)"
  by (cases c) (simp_all add: Stop_stopped Start_stopped)

lemma after_calls_stopped: "stopped w \<Longrightarrow> stopped (after_calls tick w cs)"
  unfolding after_calls_def
  by (induction cs arbitrary: w) (simp_all add: after_call_stopped)

lemma stopped_IsDone: "stopped w \<Longrightarrow> IsDone w"
  by (simp add: stopped_def IsDone_def HaltChan_def)

lemma after_Stops: "stopped w \<Longrightarrow> after_calls tick w (replicate n CallStop) = w"
  unfolding after_calls_def by (induction n) (simp_all add: Stop_stopped)

text \<open>
  Once the worker is stopped, the loop returns at the first \<^verbatim>\<open>select\<close> that takes the halt
  case, if \<^verbatim>\<open>Tick\<close> has not failed before.
\<close>

lemma Start_loop_halted:
  "stopped w \<Longrightarrow> Select False \<in> set es \<Longrightarrow>
     \<exists>r w'. Start_loop tick es w = Finished (Returns r w')"
proof (induction es arbitrary: w)
  case Nil
  then show ?case by simp
next
  case (Cons e es)
  show ?case
  proof (cases e)
    case StopCalled
    then show ?thesis
      using Cons by (simp add: Stop_stopped)
  next
    case (Select timer)
    show ?thesis
    proof (cases timer)
      case False
      then show ?thesis
        using Select Cons.prems by (simp add: stopped_def)
    next
      case True
      then have "Select False \<in> set es"
        using Cons.prems Select by simp
      from Cons.IH [OF stopped_spec [OF Cons.prems(1)] this]
      show ?thesis
        using Select True by (auto split: prod.splits option.splits)
    qed
  qed
qed

lemma Start_halted:
  assumes "stopped w" and "Select False \<in> set es"
  shows "\<exists>r w'. Start tick es w = Finished (Returns r w')"
proof -
  from Start_loop_halted [OF assms, of tick] obtain r w1
    where l: "Start_loop tick es w = Finished (Returns r w1)"
    by blast
  from Start_loop_stopped [OF assms(1), of tick es] l have "stopped w1"
    by simp
  then show ?thesis
    using l by (simp add: Start_def Stop_stopped)
qed

lemma Start_stop_during:
  assumes "consistent w" and "Select False \<in> set es2"
  shows "\<exists>r w'. Start tick (es1 @ StopCalled # es2) w = Finished (Returns r w')"
proof -
  have c1: "consistent (state_of (Start_loop tick es1 w))"
    and np: "\<And>p w'. Start_loop tick es1 w \<noteq> Finished (Panics p w')"
    using Start_loop_consistent [OF assms(1), of tick es1] by auto
  show ?thesis
  proof (cases "Start_loop tick es1 w")
    case (StillRunning w1)
    then have c: "consistent w1"
      using c1 by simp
    have s: "stopped (w1\<lparr>once := True, halt := Closed\<rparr>)"
      by (simp add: stopped_def)
    from Start_halted [OF s assms(2), of tick]
    show ?thesis
      using StillRunning c by (simp add: Start_def Start_loop_append Stop_consistent)
  next
    case (Finished out)
    then obtain r w1 where out: "out = Returns r w1"
      using np by (cases out) auto
    then have "consistent w1"
      using c1 Finished by simp
    then show ?thesis
      using Finished out by (simp add: Start_def Start_loop_append Stop_consistent)
  qed
qed

text \<open>
  C7: on a worker built by \<^verbatim>\<open>newWorker\<close> and used through its methods (a consistent worker),
  \<^verbatim>\<open>Stop\<close> returns nil and leaves the halt channel closed; a further \<^verbatim>\<open>Stop\<close>, and any number
  of them, returns nil and changes nothing. A \<^verbatim>\<open>Start\<close> that begins after the \<^verbatim>\<open>Stop\<close> returns
  nil at its first \<^verbatim>\<open>select\<close> unless the timer is ready too and picked, and returns in any case
  at the first \<^verbatim>\<open>select\<close> that takes the halt case, which is ready at every one of them; so does
  a \<^verbatim>\<open>Start\<close> that is running when another goroutine calls \<^verbatim>\<open>Stop\<close>.
\<close>

theorem Stop_idempotent:
  assumes "consistent w"
  shows "\<exists>w1. (Stop w :: ('e option, 's Worker) outcome) = Returns None w1
           \<and> halt w1 = Closed
           \<and> (Stop w1 :: ('e option, 's Worker) outcome) = Returns None w1
           \<and> (\<forall>n. after_calls tick w1 (replicate n CallStop) = w1)
           \<and> (\<forall>es. Start tick (Select False # es) w1 = Finished (Returns None w1))
           \<and> (\<forall>es. Select False \<in> set es \<longrightarrow>
                 (\<exists>r w2. Start tick es w1 = Finished (Returns r w2)))
           \<and> (\<forall>es1 es2. Select False \<in> set es2 \<longrightarrow>
                 (\<exists>r w2. Start tick (es1 @ StopCalled # es2) w = Finished (Returns r w2)))"
proof -
  let ?w1 = "w\<lparr>once := True, halt := Closed\<rparr>"
  have s: "stopped ?w1"
    by (simp add: stopped_def)
  have 1: "(Stop w :: ('e option, 's Worker) outcome) = Returns None ?w1"
    using assms by (rule Stop_consistent)
  have 2: "(Stop ?w1 :: ('e option, 's Worker) outcome) = Returns None ?w1"
    using s by (rule Stop_stopped)
  have 3: "after_calls tick ?w1 (replicate n CallStop) = ?w1" for n
    using s by (rule after_Stops)
  have 4: "Start tick (Select False # es) ?w1 = Finished (Returns None ?w1)" for es
    by (simp add: Start_def Stop_def)
  have 5: "\<exists>r w2. Start tick es ?w1 = Finished (Returns r w2)" if "Select False \<in> set es" for es
    using s that by (rule Start_halted)
  have 6: "\<exists>r w2. Start tick (es1 @ StopCalled # es2) w = Finished (Returns r w2)"
    if "Select False \<in> set es2" for es1 es2
    using assms that by (rule Start_stop_during)
  show ?thesis
    using 1 2 3 4 5 6 by (intro exI [of _ ?w1]) simp
qed

theorem Stop_idempotent_witness:
  "consistent (newWorker (0::nat))
   \<and> (Stop (newWorker (0::nat)) :: (string option, nat Worker) outcome)
       = Returns None \<lparr>halt = Closed, once = True, tickInterval = 0, spec = 0\<rparr>
   \<and> Select False \<in> set [Select True, Select False]
   \<and> (\<exists>r w2. Start counting ([Select True] @ StopCalled # [Select True, Select False])
                (newWorker 0) = Finished (Returns r w2))"
proof -
  have c: "consistent (newWorker (0::nat))"
    by (rule consistent_newWorker)
  have m: "Select False \<in> set [Select True, Select False]"
    by simp
  from Stop_idempotent [OF c, where tick = counting and 'e = string]
  have "\<forall>es1 es2. Select False \<in> set es2 \<longrightarrow>
          (\<exists>r w2. Start counting (es1 @ StopCalled # es2) (newWorker 0) = Finished (Returns r w2))"
    by blast
  from this [rule_format, OF m, of "[Select True]"] c m
  show ?thesis
    by (simp add: Stop_def newWorker_def)
qed

text \<open>
  C10: whenever \<^verbatim>\<open>Start\<close> returns on a consistent worker, with nil or with the error of \<^verbatim>\<open>Tick\<close>,
  the deferred \<^verbatim>\<open>Stop\<close> has run: the halt channel is closed, \<^verbatim>\<open>IsDone\<close> returns true, and it
  still does after any further calls of \<^verbatim>\<open>Stop\<close>, \<^verbatim>\<open>IsDone\<close>, \<^verbatim>\<open>HaltChan\<close> and \<^verbatim>\<open>Start\<close>.
\<close>

theorem Start_return_done:
  assumes "consistent w" and "Start tick es w = Finished (Returns r w')"
  shows "halt w' = Closed \<and> IsDone w' \<and> (\<forall>cs. IsDone (after_calls tick w' cs))"
  using Start_returns_stopped [OF assms]
  by (simp add: stopped_IsDone after_calls_stopped) (simp add: stopped_def)

lemma Start_failing:
  "Start failing [Select True, Select True, Select True] (newWorker 0)
     = Finished (Returns (Some ''tick failed'')
         \<lparr>halt = Closed, once = True, tickInterval = 0, spec = 2\<rparr>)"
  by (simp add: Start_def failing_def newWorker_def Stop_def numeral_2_eq_2)

theorem Start_return_done_witness:
  "consistent (newWorker (0::nat))
   \<and> Start failing [Select True, Select True, Select True] (newWorker 0)
       = Finished (Returns (Some ''tick failed'')
           \<lparr>halt = Closed, once = True, tickInterval = 0, spec = 2\<rparr>)
   \<and> IsDone \<lparr>halt = Closed, once = True, tickInterval = 0, spec = 2::nat\<rparr>
   \<and> IsDone (after_calls failing \<lparr>halt = Closed, once = True, tickInterval = 0, spec = 2\<rparr>
               [CallStop, CallStart [Select True], CallIsDone])"
  using Start_return_done [OF consistent_newWorker Start_failing]
  by (simp add: consistent_newWorker Start_failing)

section \<open>Properties of the runner\<close>

subsection \<open>Linearizations\<close>

lemma mset_inserts: "zs \<in> set (inserts x ys) \<Longrightarrow> mset zs = add_mset x (mset ys)"
  by (induction ys arbitrary: zs) auto

lemma mset_orders: "zs \<in> set (orders xs) \<Longrightarrow> mset zs = mset xs"
  by (induction xs arbitrary: zs) (auto dest: mset_inserts)

lemma inserts_self: "x # ys \<in> set (inserts x ys)"
  by (cases ys) simp_all

lemma orders_self: "xs \<in> set (orders xs)"
  by (induction xs) (auto intro: inserts_self)

lemma mset_linearizations: "tr \<in> set (linearizations ps) \<Longrightarrow> mset tr = mset (events ps)"
proof (induction ps arbitrary: tr)
  case Nil
  then show ?case by (simp add: events_def)
next
  case (Cons p ps)
  show ?case
  proof (cases p)
    case (Seq e)
    then show ?thesis using Cons by (auto simp: events_def)
  next
    case (Par es)
    then show ?thesis using Cons by (auto simp: events_def dest: mset_orders)
  qed
qed

lemma set_linearizations: "tr \<in> set (linearizations ps) \<Longrightarrow> set tr = set (events ps)"
  by (metis mset_linearizations set_mset_mset)

lemma count_linearizations:
  "tr \<in> set (linearizations ps) \<Longrightarrow> count_list tr e = count_list (events ps) e"
  by (metis mset_linearizations count_mset)

lemma events_linearization: "events ps \<in> set (linearizations ps)"
proof (induction ps)
  case Nil
  then show ?case by (simp add: events_def)
next
  case (Cons p ps)
  then show ?case
    using orders_self by (cases p) (auto simp: events_def)
qed

lemma linearizations_append:
  "set (linearizations (ps @ qs)) =
     {x @ y | x y. x \<in> set (linearizations ps) \<and> y \<in> set (linearizations qs)}"
proof (induction ps)
  case Nil
  then show ?case by simp
next
  case (Cons p ps)
  show ?case
  proof (cases p)
    case (Seq e)
    then show ?thesis
      using Cons by (auto simp: image_iff) (metis append_Cons)+
  next
    case (Par es)
    then show ?thesis
      using Cons by (auto simp: image_iff) (metis append.assoc)+
  qed
qed

lemma events_append [simp]: "events (ps @ qs) = events ps @ events qs"
  by (simp add: events_def)

text \<open>Order: a relation that holds along the phases, and inside each concurrent phase in both
  directions, holds along every linearization.\<close>

lemma sorted_wrt_orders:
  "(\<forall>x\<in>set es. \<forall>y\<in>set es. R x y) \<Longrightarrow> zs \<in> set (orders es) \<Longrightarrow> sorted_wrt R zs"
proof -
  assume a: "\<forall>x\<in>set es. \<forall>y\<in>set es. R x y" and z: "zs \<in> set (orders es)"
  from z have "set zs = set es" by (metis mset_orders set_mset_mset)
  with a have "\<forall>x\<in>set zs. \<forall>y\<in>set zs. R x y" by simp
  then show ?thesis by (simp add: sorted_wrt_iff_nth_less)
qed

lemma sorted_wrt_linearizations:
  assumes "sorted_wrt R (events ps)"
    and "\<forall>es. Par es \<in> set ps \<longrightarrow> (\<forall>x\<in>set es. \<forall>y\<in>set es. R x y)"
    and "tr \<in> set (linearizations ps)"
  shows "sorted_wrt R tr"
  using assms
proof (induction ps arbitrary: tr)
  case Nil
  then show ?case by simp
next
  case (Cons p ps)
  show ?case
  proof (cases p)
    case (Seq e)
    with Cons.prems obtain tr' where tr: "tr = e # tr'" "tr' \<in> set (linearizations ps)"
      by auto
    from Cons.prems(1) Seq have s: "sorted_wrt R (events ps)" "\<forall>y\<in>set (events ps). R e y"
      by (simp_all add: events_def)
    have "sorted_wrt R tr'"
      using Cons.IH [OF s(1) _ tr(2)] Cons.prems(2) by simp
    then show ?thesis
      using tr s(2) set_linearizations [OF tr(2)] by simp
  next
    case (Par es)
    with Cons.prems obtain z tr' where tr: "tr = z @ tr'" "z \<in> set (orders es)"
        "tr' \<in> set (linearizations ps)"
      by auto
    from Cons.prems(1) Par have s: "sorted_wrt R (events ps)"
        "\<forall>x\<in>set es. \<forall>y\<in>set (events ps). R x y"
      by (simp_all add: events_def sorted_wrt_append)
    have 1: "sorted_wrt R tr'"
      using Cons.IH [OF s(1) _ tr(3)] Cons.prems(2) by simp
    have 2: "sorted_wrt R z"
      using sorted_wrt_orders [OF _ tr(2)] Cons.prems(2) Par by simp
    have "set z = set es" using tr(2) by (metis mset_orders set_mset_mset)
    then show ?thesis
      using tr 1 2 s(2) set_linearizations [OF tr(3)] by (simp add: sorted_wrt_append)
  qed
qed

subsection \<open>Structure of a run\<close>

lemma init_units_ok:
  "list_all (\<lambda>x. snd (snd x) = None) us \<Longrightarrow>
     init_units us = (map (\<lambda>x. Seq (EvInit (fst x))) us, True)"
  by (induction us rule: init_units.induct) auto

lemma init_units_fail:
  "list_all (\<lambda>x. snd (snd x) = None) us \<Longrightarrow>
     init_units (us @ (u, n, Some err) # vs) =
       (map (\<lambda>x. Seq (EvInit (fst x))) us @ [Seq (EvInit u), Seq (EvEmit (init_failure n err))],
        False)"
  by (induction us rule: init_units.induct) auto

lemma init_units_snd: "snd (init_units us) = list_all (\<lambda>x. snd (snd x) = None) us"
  by (induction us rule: init_units.induct) (auto split: prod.splits)

lemma init_units_events:
  "e \<in> set (events (fst (init_units us))) \<Longrightarrow> is_init e \<or> is_emit e"
  by (induction us rule: init_units.induct) (auto simp: events_def split: prod.splits)

lemma init_units_no_emit:
  "snd (init_units us) \<Longrightarrow> e \<in> set (events (fst (init_units us))) \<Longrightarrow> is_init e"
  by (induction us rule: init_units.induct) (auto simp: events_def split: prod.splits)

lemma tier_units_ok: "list_all (\<lambda>x. snd (snd x) = None) (tier_units t) = tier_ok t"
  by (induction t) (auto simp: tier_units_def tier_ok_def proc_ok_def)

lemma init_tier_ok:
  "tier_ok t \<Longrightarrow> init_units (tier_units t) = (map (\<lambda>(i, p). Seq (EvInit (Proc i))) t, True)"
  using init_units_ok [of "tier_units t"]
  by (simp add: tier_units_ok) (simp add: tier_units_def case_prod_unfold comp_def)

lemma run_tiers_eq:
  "run_tiers ts st =
     (concat (map started_phases (takeWhile tier_ok ts))
        @ (case dropWhile tier_ok ts of [] \<Rightarrow> [] | t # _ \<Rightarrow> fst (init_units (tier_units t))),
      rev (takeWhile tier_ok ts) @ st,
      list_all tier_ok ts)"
proof (induction ts arbitrary: st)
  case Nil
  then show ?case by simp
next
  case (Cons t ts)
  show ?case
  proof (cases "tier_ok t")
    case True
    then show ?thesis
      using Cons [of "t # st"] by (simp add: init_tier_ok started_phases_def)
  next
    case False
    then have "\<not> snd (init_units (tier_units t))"
      by (simp add: init_units_snd tier_units_ok)
    then show ?thesis
      using False by (cases "init_units (tier_units t)") simp
  qed
qed

lemma supervise_events: "e \<in> set (events (fst (supervise running env))) \<Longrightarrow> is_emit e"
  by (induction running env rule: supervise.induct)
     (auto simp: events_def split: option.splits if_splits)

lemma supervise_quiet:
  "snd (supervise running env) \<noteq> Cascaded \<Longrightarrow> fst (supervise running env) = []"
  by (induction running env rule: supervise.induct)
     (auto split: option.splits if_splits)

lemma events_cascade:
  "events (cascade st) = map (\<lambda>(i, p). EvStop i) (concat st) @ concat (map stop_errors st)"
  by (simp add: cascade_def events_def comp_def map_concat)

lemma stop_errors_emit: "e \<in> set (stop_errors t) \<Longrightarrow> is_emit e"
  by (auto simp: stop_errors_def split: option.splits)

lemma distinct_tiers_aux:
  "distinct ks \<Longrightarrow> distinct (map fst xs) \<Longrightarrow>
     distinct (map fst (concat (map (\<lambda>k. filter (\<lambda>(i, p). f p = k) xs) ks)))"
proof (induction ks)
  case Nil
  then show ?case by simp
next
  case (Cons k ks)
  have "False" if "(i, p) \<in> set xs" "f p = k" "(i, p') \<in> set xs" "f p' \<in> set ks" for i p p'
  proof -
    from Cons.prems(2) that(1,3) have "p = p'" by (rule eq_key_imp_eq_value)
    with that Cons.prems(1) show False by simp
  qed
  then have "set (map fst (filter (\<lambda>(i, p). f p = k) xs))
      \<inter> set (map fst (concat (map (\<lambda>k. filter (\<lambda>(i, p). f p = k) xs) ks))) = {}"
    by (auto simp: image_iff) blast
  then show ?case
    using Cons by (simp add: distinct_map_filter)
qed

lemma distinct_tiers: "distinct (map fst (concat (tiers ps)))"
  unfolding tiers_def tier_def
  by (rule distinct_tiers_aux) (simp_all add: priorities_def)

lemma set_tiers: "set (concat (tiers ps)) = set (enumerate 0 ps)"
proof -
  have "priority p \<in> set (priorities ps)" if "(i, p) \<in> set (enumerate 0 ps)" for i p
    using that by (auto simp: priorities_def in_set_enumerate_eq)
  then show ?thesis
    by (auto simp: tiers_def tier_def)
qed

lemma distinct_started: "distinct (map fst (concat (takeWhile P (tiers ps))))"
proof -
  have "concat (tiers ps) = concat (takeWhile P (tiers ps)) @ concat (dropWhile P (tiers ps))"
    by (metis concat_append takeWhile_dropWhile_id)
  then show ?thesis
    using distinct_tiers [of ps] by (metis distinct_append map_append)
qed

lemma mset_concat_rev: "mset (concat (rev xss)) = mset (concat xss)"
  by (induction xss) simp_all

lemma starts_started_phases:
  "filter is_start (events (concat (map started_phases S))) = map (\<lambda>x. EvStart (fst x)) (concat S)"
  by (induction S) (simp_all add: started_phases_def events_def comp_def case_prod_unfold)

lemma events_started_phases:
  "e \<in> set (events (concat (map started_phases S))) \<Longrightarrow> is_init e \<or> is_start e"
  by (induction S) (auto simp: started_phases_def events_def)

lemma Par_started_phases:
  "Par es \<in> set (concat (map started_phases S)) \<Longrightarrow> list_all is_start es"
  by (induction S) (auto simp: started_phases_def list_all_iff)

lemma Par_init_units: "Par es \<notin> set (fst (init_units us))"
  by (induction us rule: init_units.induct) (auto split: prod.splits)

lemma Par_supervise: "Par es \<notin> set (fst (supervise running env))"
  by (induction running env rule: supervise.induct) (auto split: option.splits if_splits)

lemma start_kind: "is_start e \<Longrightarrow> \<not> is_init e \<and> \<not> is_emit e \<and> \<not> is_stop e \<and> e \<noteq> EvClose"
  by (cases e) auto

lemma no_starts: "\<forall>e\<in>set xs. is_init e \<or> is_emit e \<Longrightarrow> filter is_start xs = []"
  using start_kind by (fastforce simp: filter_empty_conv)

lemma no_starts_emit: "\<forall>e\<in>set xs. is_emit e \<Longrightarrow> filter is_start xs = []"
  using start_kind by (fastforce simp: filter_empty_conv)

lemma Run_shape:
  "\<exists>pre S. trace (Run r env) = pre @ closing (ending (Run r env)) S
      \<and> filter is_start (events pre) = map (\<lambda>x. EvStart (fst x)) (concat S)
      \<and> (\<forall>e\<in>set (events pre). is_init e \<or> is_start e \<or> is_emit e)
      \<and> (\<forall>es. Par es \<in> set pre \<longrightarrow> list_all is_start es)
      \<and> distinct (map fst (concat S))"
proof (cases "init_units (initializer_units (initializers r))")
  case (Pair tr0 ok0)
  have e0: "\<forall>e\<in>set (events tr0). is_init e \<or> is_emit e"
    using init_units_events [of _ "initializer_units (initializers r)"] Pair by simp
  then have s0: "filter is_start (events tr0) = []"
    by (rule no_starts)
  have p0: "\<forall>es. Par es \<notin> set tr0"
    using Par_init_units [of _ "initializer_units (initializers r)"] Pair by simp
  show ?thesis
  proof (cases ok0)
    case False
    then have "trace (Run r env) = tr0 @ closing (ending (Run r env)) []"
      using Pair by (simp add: Run_def closing_def cascade_def)
    then show ?thesis
      using e0 s0 p0 by (intro exI [of _ tr0] exI [of _ "[]"]) auto
  next
    case True
    let ?T = "tiers (processes r)"
    let ?S = "takeWhile tier_ok ?T"
    let ?drv = "concat (map started_phases ?S)"
    let ?fail = "case dropWhile tier_ok ?T of [] \<Rightarrow> [] | t # _ \<Rightarrow> fst (init_units (tier_units t))"
    have ef: "\<forall>e\<in>set (events ?fail). is_init e \<or> is_emit e"
      using init_units_events by (auto split: list.splits simp: events_def)
    then have sf: "filter is_start (events ?fail) = []"
      by (rule no_starts)
    have pf: "\<forall>es. Par es \<notin> set ?fail"
      using Par_init_units by (auto split: list.splits)
    have ed: "\<forall>e\<in>set (events ?drv). is_init e \<or> is_start e"
      using events_started_phases by blast
    have pd: "\<forall>es. Par es \<in> set ?drv \<longrightarrow> list_all is_start es"
      using Par_started_phases by blast
    have d: "distinct (map fst (concat ?S))"
      by (rule distinct_started)
    show ?thesis
    proof (cases "list_all tier_ok ?T")
      case False
      let ?pre = "tr0 @ ?drv @ ?fail"
      have "trace (Run r env) = ?pre @ closing (ending (Run r env)) ?S"
        using Pair True False by (simp add: Run_def run_tiers_eq closing_def)
      moreover have "filter is_start (events ?pre) = map (\<lambda>x. EvStart (fst x)) (concat ?S)"
        using s0 sf by (simp add: starts_started_phases)
      moreover have "\<forall>e\<in>set (events ?pre). is_init e \<or> is_start e \<or> is_emit e"
        using e0 ef ed by auto
      moreover have "\<forall>es. Par es \<in> set ?pre \<longrightarrow> list_all is_start es"
        using p0 pf pd by auto
      ultimately show ?thesis
        using d by blast
    next
      case all: True
      then have tw: "takeWhile tier_ok ?T = ?T" and dw: "dropWhile tier_ok ?T = []"
        by (simp_all add: list_all_iff)
      obtain tr2 e where sup: "supervise (concat (rev ?T)) env = (tr2, e)"
        by (cases "supervise (concat (rev ?T)) env") auto
      have e2: "\<forall>x\<in>set (events tr2). is_emit x"
        using supervise_events [of _ "concat (rev ?T)" env] sup by simp
      then have s2: "filter is_start (events tr2) = []"
        by (rule no_starts_emit)
      have p2: "\<forall>es. Par es \<notin> set tr2"
        using Par_supervise [of _ "concat (rev ?T)" env] sup by simp
      let ?pre = "tr0 @ ?drv @ tr2"
      have "trace (Run r env) = ?pre @ closing (ending (Run r env)) ?S"
        using Pair True all
        by (cases e) (simp_all add: Run_def run_tiers_eq closing_def tw dw sup)
      moreover have "filter is_start (events ?pre) = map (\<lambda>x. EvStart (fst x)) (concat ?S)"
        using s0 s2 by (simp add: starts_started_phases)
      moreover have "\<forall>e\<in>set (events ?pre). is_init e \<or> is_start e \<or> is_emit e"
        using e0 e2 ed by auto
      moreover have "\<forall>es. Par es \<in> set ?pre \<longrightarrow> list_all is_start es"
        using p0 p2 pd by auto
      ultimately show ?thesis
        using d by blast
    qed
  qed
qed

lemma count_stops: "count_list (map (\<lambda>(i, p). EvStop i) xs) (EvStop i) = count_list (map fst xs) i"
  by (induction xs) auto

lemma count_other: "\<forall>e\<in>set xs. \<not> is_stop e \<Longrightarrow> count_list xs (EvStop i) = 0"
  by (induction xs) auto

lemma count_distinct: "distinct xs \<Longrightarrow> count_list xs x = (if x \<in> set xs then 1 else 0)"
  by (induction xs) auto

lemma emit_kind: "is_emit e \<Longrightarrow> \<not> is_init e \<and> \<not> is_start e \<and> \<not> is_stop e \<and> e \<noteq> EvClose"
  by (cases e) auto

lemma init_kind: "is_init e \<Longrightarrow> \<not> is_emit e \<and> \<not> is_start e \<and> \<not> is_stop e \<and> e \<noteq> EvClose"
  by (cases e) auto

lemma stop_kind: "is_stop e \<Longrightarrow> \<not> is_emit e \<and> \<not> is_start e \<and> \<not> is_init e \<and> e \<noteq> EvClose"
  by (cases e) auto

lemma events_cascade_kind: "e \<in> set (events (cascade st)) \<Longrightarrow> is_stop e \<or> is_emit e"
  by (auto simp: events_cascade dest: stop_errors_emit)

lemma Par_cascade: "Par es \<in> set (cascade st) \<Longrightarrow> \<forall>e\<in>set es. is_stop e \<or> is_emit e"
  by (auto simp: cascade_def dest: stop_errors_emit)

lemma count_cascade:
  "distinct (map fst (concat S)) \<Longrightarrow>
     count_list (events (cascade (rev S))) (EvStop i) = (if i \<in> fst ` set (concat S) then 1 else 0)"
proof -
  assume d: "distinct (map fst (concat S))"
  have m: "mset (map fst (concat (rev S))) = mset (map fst (concat S))"
    by (simp add: mset_concat_rev)
  then have "distinct (map fst (concat (rev S)))"
    using d by (metis mset_eq_imp_distinct_iff)
  moreover have "set (map fst (concat (rev S))) = set (map fst (concat S))"
    using m by (metis set_mset_mset)
  moreover have "count_list (concat (map stop_errors (rev S))) (EvStop i) = 0"
    by (rule count_other) (auto simp: stop_errors_def split: option.splits)
  ultimately show ?thesis
    by (simp add: events_cascade count_stops count_distinct del: set_map) simp
qed

lemma sorted_wrt_left: "\<forall>x\<in>set xs. \<forall>y. R x y \<Longrightarrow> sorted_wrt R xs"
  by (induction xs) auto

lemma sorted_wrt_pairs: "\<forall>x\<in>set xs. \<forall>y\<in>set xs. R x y \<Longrightarrow> sorted_wrt R xs"
  by (induction xs) auto

lemma in_order_left: "is_init x \<or> is_start x \<or> is_emit x \<Longrightarrow> in_order x y"
  by (cases x) (auto simp: in_order_def)

lemma in_order_right:
  "is_stop x \<or> is_emit x \<Longrightarrow> is_stop y \<or> is_emit y \<or> y = EvClose \<Longrightarrow> in_order x y"
  by (cases x; cases y) (auto simp: in_order_def)

lemma in_order_closing: "sorted_wrt in_order (events (closing e S))"
proof -
  have 1: "sorted_wrt in_order (events (cascade st) @ [EvClose])" for st
  proof -
    have "\<forall>x\<in>set (events (cascade st)). \<forall>y\<in>set (events (cascade st) @ [EvClose]). in_order x y"
    proof (intro ballI)
      fix x y
      assume "x \<in> set (events (cascade st))" and "y \<in> set (events (cascade st) @ [EvClose])"
      then have "is_stop x \<or> is_emit x" and "is_stop y \<or> is_emit y \<or> y = EvClose"
        using events_cascade_kind by auto
      then show "in_order x y"
        by (rule in_order_right)
    qed
    then show ?thesis
      by (simp add: sorted_wrt_append sorted_wrt_pairs)
  qed
  show ?thesis
    using 1 [of "rev S"] by (cases e) (simp_all add: closing_def events_def)
qed

lemma closing_kind:
  "x \<in> set (events (closing e S)) \<Longrightarrow> is_stop x \<or> is_emit x \<or> x = EvClose"
  using events_cascade_kind [of x "rev S"] by (cases e) (auto simp: closing_def events_def)

lemma closing_no_start: "x \<in> set (events (closing e S)) \<Longrightarrow> \<not> is_start x"
  using closing_kind [of x e S] by (cases x) auto

lemma Par_closing: "Par es \<in> set (closing e S) \<Longrightarrow> \<forall>x\<in>set es. is_stop x \<or> is_emit x"
  using Par_cascade [of es "rev S"] by (cases e) (auto simp: closing_def)

lemma run_counts:
  assumes "tr \<in> runs r env"
  shows "count_list tr (EvStop i) =
           (if ending (Run r env) = Cascaded \<and> EvStart i \<in> set tr then 1 else 0)
         \<and> sorted_wrt in_order tr
         \<and> (ending (Run r env) = Cascaded \<longrightarrow> EvClose \<in> set tr)"
proof -
  from Run_shape [of r env] obtain pre S where
    t: "trace (Run r env) = pre @ closing (ending (Run r env)) S"
    and st: "filter is_start (events pre) = map (\<lambda>x. EvStart (fst x)) (concat S)"
    and k: "\<forall>e\<in>set (events pre). is_init e \<or> is_start e \<or> is_emit e"
    and par: "\<forall>es. Par es \<in> set pre \<longrightarrow> list_all is_start es"
    and d: "distinct (map fst (concat S))"
    by blast
  let ?e = "ending (Run r env)"
  from assms have lin: "tr \<in> set (linearizations (trace (Run r env)))"
    by (simp add: runs_def)
  have "\<not> is_stop e" if "e \<in> set (events pre)" for e
    using k that by (cases e) auto
  then have c0: "count_list (events pre) (EvStop i) = 0"
    by (intro count_other) blast
  have c1: "count_list (events (closing ?e S)) (EvStop i) =
              (if ?e = Cascaded \<and> i \<in> fst ` set (concat S) then 1 else 0)"
    using count_cascade [OF d, of i] by (cases ?e) (simp_all add: closing_def events_def)
  have "EvStart i \<in> set (events (trace (Run r env))) \<longleftrightarrow> EvStart i \<in> set (filter is_start (events pre))"
    using closing_no_start [of "EvStart i" ?e S] by (auto simp: t)
  also have "\<dots> \<longleftrightarrow> i \<in> fst ` set (concat S)"
    unfolding st by auto
  finally have s: "EvStart i \<in> set tr \<longleftrightarrow> i \<in> fst ` set (concat S)"
    using set_linearizations [OF lin] by simp
  have 1: "count_list tr (EvStop i) = (if ?e = Cascaded \<and> EvStart i \<in> set tr then 1 else 0)"
    using count_linearizations [OF lin, of "EvStop i"] c0 c1 s by (simp add: t)
  have pre_ok: "\<forall>x\<in>set (events pre). \<forall>y. in_order x y"
    using k in_order_left by blast
  have "sorted_wrt in_order (events (trace (Run r env)))"
    using pre_ok in_order_closing [of ?e S]
    by (simp add: t sorted_wrt_append sorted_wrt_left)
  moreover have "\<forall>es. Par es \<in> set (trace (Run r env)) \<longrightarrow> (\<forall>x\<in>set es. \<forall>y\<in>set es. in_order x y)"
  proof (intro allI impI ballI)
    fix es x y
    assume "Par es \<in> set (trace (Run r env))" and xy: "x \<in> set es" "y \<in> set es"
    then consider "Par es \<in> set pre" | "Par es \<in> set (closing ?e S)"
      by (auto simp: t)
    then show "in_order x y"
    proof cases
      case 1
      then have "is_start x" using par xy by (auto simp: list_all_iff)
      then show ?thesis by (simp add: in_order_left)
    next
      case 2
      then have "is_stop x \<or> is_emit x" "is_stop y \<or> is_emit y"
        using Par_closing xy by blast+
      then show ?thesis by (intro in_order_right) auto
    qed
  qed
  ultimately have 2: "sorted_wrt in_order tr"
    using lin by (rule sorted_wrt_linearizations)
  have 3: "EvClose \<in> set tr" if "?e = Cascaded"
    using set_linearizations [OF lin] that by (simp add: t closing_def events_def)
  show ?thesis
    using 1 2 3 by simp
qed

lemma enumerate_snd: "x \<in> set (enumerate n xs) \<Longrightarrow> snd x \<in> set xs"
  by (cases x) (auto simp: in_set_enumerate_eq)

lemma all_tiers_ok:
  assumes "\<forall>p\<in>set ps. initResult (proc p) = None"
  shows "list_all tier_ok (tiers ps)"
proof -
  have "proc_ok x" if "x \<in> set (concat (tiers ps))" for x
  proof -
    from that have "x \<in> set (enumerate 0 ps)" by (simp only: set_tiers)
    then have "snd x \<in> set ps" by (rule enumerate_snd)
    then show ?thesis using assms by (simp add: proc_ok_def)
  qed
  then show ?thesis
    by (auto simp: list_all_iff tier_ok_def)
qed

lemma initializers_ok:
  assumes "\<forall>u\<in>set us. initResult u = None"
  shows "init_units (initializer_units us)
           = (map (\<lambda>x. Seq (EvInit (fst x))) (initializer_units us), True)"
proof (rule init_units_ok)
  have "snd x \<in> set us" if "x \<in> set (enumerate 0 us)" for x
    using that by (rule enumerate_snd)
  then show "list_all (\<lambda>x. snd (snd x) = None) (initializer_units us)"
    using assms by (auto simp: list_all_iff initializer_units_def)
qed

lemma Run_all_ok:
  assumes "\<forall>u\<in>set (initializers r). initResult u = None"
    and "\<forall>p\<in>set (processes r). initResult (proc p) = None"
  shows "Run r env =
     (case supervise (concat (rev (tiers (processes r)))) env of
        (tr2, e) \<Rightarrow> \<lparr>trace = driver r @ tr2 @ closing e (tiers (processes r)), ending = e\<rparr>)"
proof -
  let ?T = "tiers (processes r)"
  have all: "list_all tier_ok ?T"
    using assms(2) by (rule all_tiers_ok)
  then have tw: "takeWhile tier_ok ?T = ?T" and dw: "dropWhile tier_ok ?T = []"
    by (simp_all add: list_all_iff)
  obtain tr2 e where sup: "supervise (concat (rev ?T)) env = (tr2, e)"
    by (cases "supervise (concat (rev ?T)) env") auto
  show ?thesis
    using all
    by (cases e)
       (simp_all add: Run_def initializers_ok [OF assms(1)] run_tiers_eq tw dw sup driver_def
          closing_def)
qed

lemma supervise_fatal:
  "map_of running k = Some p \<Longrightarrow>
     supervise running (Exit k (Some err) # rest)
       = ([Seq (EvEmit (fatal_error (pname p) err))], Cascaded)"
  by (cases running) auto

lemma supervise_exit_nil:
  "map_of running k = Some p \<Longrightarrow> \<not> silentExit p \<Longrightarrow>
     supervise running (Exit k None # rest)
       = ([Seq (EvEmit (fatal_error (pname p) ''<nil>''))], Cascaded)"
  by (cases running) auto

lemma supervise_benign:
  assumes "\<forall>s\<in>set pre. \<exists>i. s = Exit i None \<and> (\<forall>p. (i, p) \<in> set running \<longrightarrow> silentExit p)"
    and "(k, q) \<in> set running" and "Exit k None \<notin> set pre"
  shows "supervise running (pre @ rest)
           = supervise (filter (\<lambda>(j, p). Exit j None \<notin> set pre) running) rest"
  using assms
proof (induction pre arbitrary: running)
  case Nil
  then show ?case by simp
next
  case (Cons s pre)
  from Cons.prems(1) obtain i where s: "s = Exit i None"
    and sil: "\<forall>p. (i, p) \<in> set running \<longrightarrow> silentExit p"
    by auto
  from Cons.prems(3) s have ik: "i \<noteq> k" and kpre: "Exit k None \<notin> set pre"
    by auto
  from Cons.prems(2) have ne: "running \<noteq> []"
    by auto
  have ben: "\<forall>s\<in>set pre. \<exists>i. s = Exit i None \<and> (\<forall>p. (i, p) \<in> set xs \<longrightarrow> silentExit p)"
    if "set xs \<subseteq> set running" for xs
    using Cons.prems(1) that by (simp add: subset_iff) blast
  show ?case
  proof (cases "map_of running i")
    case None
    then have "i \<notin> fst ` set running"
      by (simp add: map_of_eq_None_iff)
    then have f: "filter (\<lambda>(j, p). Exit j None \<notin> set (s # pre)) running
               = filter (\<lambda>(j, p). Exit j None \<notin> set pre) running"
      unfolding s by (intro filter_cong) (auto simp: image_iff)
    show ?thesis
      using Cons.IH [OF ben [of running] Cons.prems(2) kpre] None ne
      unfolding f by (simp add: s)
  next
    case (Some p)
    then have "(i, p) \<in> set running"
      by (rule map_of_SomeD)
    then have sp: "silentExit p"
      using sil by simp
    let ?run = "filter (\<lambda>(j, q). j \<noteq> i) running"
    have k': "(k, q) \<in> set ?run"
      using Cons.prems(2) ik by simp
    have f: "filter (\<lambda>(j, p). Exit j None \<notin> set (s # pre)) running
               = filter (\<lambda>(j, p). Exit j None \<notin> set pre) ?run"
      unfolding s by (auto intro: filter_cong)
    show ?thesis
      using Cons.IH [OF ben [of ?run] k' kpre] Some sp ne
      unfolding f by (simp add: s)
  qed
qed

lemma enumerate_nth: "x \<in> set (enumerate 0 xs) \<Longrightarrow> snd x = xs ! fst x \<and> fst x < length xs"
  by (cases x) (auto simp: in_set_enumerate_eq)

lemma set_tier_list:
  "set (concat (map (tier ps) ks)) = {x \<in> set (enumerate 0 ps). priority (snd x) \<in> set ks}"
  by (auto simp: tier_def)

lemma distinct_tier_list: "distinct ks \<Longrightarrow> distinct (map fst (concat (map (tier ps) ks)))"
  unfolding tier_def by (rule distinct_tiers_aux) simp_all

lemma mset_tier_list:
  assumes "distinct ks"
  shows "mset (concat (map (tier ps) ks))
           = mset (filter (\<lambda>x. priority (snd x) \<in> set ks) (enumerate 0 ps))"
proof -
  have "distinct (concat (map (tier ps) ks))"
    using distinct_tier_list [OF assms, of ps] by (simp only: distinct_map)
  moreover have "distinct (filter (\<lambda>x. priority (snd x) \<in> set ks) (enumerate 0 ps))"
    by simp
  moreover have "set (concat (map (tier ps) ks))
                   = set (filter (\<lambda>x. priority (snd x) \<in> set ks) (enumerate 0 ps))"
    by (simp only: set_tier_list set_filter)
  ultimately show ?thesis
    by (simp only: set_eq_iff_mset_eq_distinct)
qed

lemma tier_priority: "x \<in> set (tier ps k) \<Longrightarrow> priority (snd x) = k"
  by (auto simp: tier_def)

lemma tier_list_descending:
  "sorted ks \<Longrightarrow>
     sorted_wrt (\<lambda>x y. priority (snd y) \<le> priority (snd x)) (concat (rev (map (tier ps) ks)))"
proof (induction ks)
  case Nil
  then show ?case by simp
next
  case (Cons k ks)
  have 1: "sorted_wrt (\<lambda>x y. priority (snd y) \<le> priority (snd x)) (tier ps k)"
    by (rule sorted_wrt_pairs) (simp add: tier_priority)
  have 2: "priority (snd y) \<le> priority (snd x)"
    if "x \<in> set (concat (rev (map (tier ps) ks)))" "y \<in> set (tier ps k)" for x y
  proof -
    from that(1) obtain k' where "k' \<in> set ks" "x \<in> set (tier ps k')"
      by auto
    then have "k \<le> priority (snd x)"
      using Cons.prems by (auto simp: tier_priority)
    then show ?thesis
      using that(2) by (simp add: tier_priority)
  qed
  show ?case
    using Cons 1 2 by (simp add: sorted_wrt_append)
qed

lemma stop_errors_concat: "concat (map stop_errors st) = stop_errors (concat st)"
  by (induction st) (simp_all add: stop_errors_def)

lemma mset_concat_map: "mset (concat (map g xs)) = (\<Sum>x\<in>#mset xs. mset (g x))"
  by (induction xs) simp_all

lemma mset_stop_errors: "mset xs = mset ys \<Longrightarrow> mset (stop_errors xs) = mset (stop_errors ys)"
  by (simp add: stop_errors_def mset_concat_map)

lemma cascade_linearization:
  assumes "sorted ks" and "distinct ks"
    and "tr \<in> set (linearizations (cascade (rev (map (tier ps) ks))))"
  shows "\<exists>s m. tr = s @ m
           \<and> mset s = mset (map (\<lambda>x. EvStop (fst x))
                               (filter (\<lambda>x. priority (snd x) \<in> set ks) (enumerate 0 ps)))
           \<and> reverse_tier_order ps s
           \<and> mset m = mset (stop_errors (filter (\<lambda>x. priority (snd x) \<in> set ks) (enumerate 0 ps)))"
proof -
  let ?st = "rev (map (tier ps) ks)"
  let ?A = "map (\<lambda>t. Par (map (\<lambda>(i, p). EvStop i) t)) ?st"
  let ?B = "map (\<lambda>t. Par (stop_errors t)) ?st"
  let ?sel = "filter (\<lambda>x. priority (snd x) \<in> set ks) (enumerate 0 ps)"
  let ?R = "\<lambda>x y. \<forall>i j. x = EvStop i \<and> y = EvStop j \<longrightarrow> priority (ps ! j) \<le> priority (ps ! i)"
  from assms(3) obtain s m where tr: "tr = s @ m"
    and s: "s \<in> set (linearizations ?A)" and m: "m \<in> set (linearizations ?B)"
    unfolding cascade_def linearizations_append by blast
  have evA: "events ?A = map (\<lambda>x. EvStop (fst x)) (concat ?st)"
    by (simp add: events_def comp_def map_concat case_prod_unfold)
  have evB: "events ?B = stop_errors (concat ?st)"
    by (simp add: events_def comp_def stop_errors_concat)
  have ms: "mset (concat ?st) = mset ?sel"
    using mset_tier_list [OF assms(2), of ps] by (simp only: mset_concat_rev)
  have 1: "mset s = mset (map (\<lambda>x. EvStop (fst x)) ?sel)"
    using mset_linearizations [OF s] ms by (simp add: evA)
  have 2: "mset m = mset (stop_errors ?sel)"
    using mset_linearizations [OF m] mset_stop_errors [OF ms] by (simp add: evB)
  have mem: "snd x = ps ! fst x" if "x \<in> set (concat ?st)" for x
  proof -
    from that have "x \<in> set (enumerate 0 ps)"
      by (auto simp: tier_def)
    then show ?thesis
      by (simp add: enumerate_nth)
  qed
  have "sorted_wrt (\<lambda>x y. ?R (EvStop (fst x)) (EvStop (fst y))) (concat ?st)"
    using tier_list_descending [OF assms(1), of ps]
    by (rule sorted_wrt_mono_rel [rotated]) (simp add: mem)
  then have sa: "sorted_wrt ?R (events ?A)"
    by (simp add: evA sorted_wrt_map)
  have "?R x y" if "Par es \<in> set ?A" and xy: "x \<in> set es" "y \<in> set es" for es x y
  proof -
    from that obtain k where k: "k \<in> set ks" and es: "es = map (\<lambda>(i, p). EvStop i) (tier ps k)"
      by auto
    from xy es obtain a b where a: "a \<in> set (tier ps k)" "x = EvStop (fst a)"
      and b: "b \<in> set (tier ps k)" "y = EvStop (fst b)"
      by (auto simp: case_prod_unfold)
    have "a \<in> set (concat ?st)" "b \<in> set (concat ?st)"
      using a(1) b(1) k by auto
    then have "priority (ps ! fst a) = k" "priority (ps ! fst b) = k"
      using mem tier_priority a(1) b(1) by metis+
    then show "?R x y"
      using a(2) b(2) by simp
  qed
  then have pa: "\<forall>es. Par es \<in> set ?A \<longrightarrow> (\<forall>x\<in>set es. \<forall>y\<in>set es. ?R x y)"
    by blast
  have 3: "reverse_tier_order ps s"
    unfolding reverse_tier_order_def using sa pa s by (rule sorted_wrt_linearizations)
  show ?thesis
    using tr 1 2 3 by blast
qed

lemma events_Nil [simp]: "events [] = []"
  by (simp add: events_def)

lemma events_Cons [simp]: "events (p # ps) = phase_events p @ events ps"
  by (simp add: events_def)

lemma count_starts: "count_list (map (\<lambda>x. EvStart (fst x)) xs) (EvStart i) = count_list (map fst xs) i"
  by (induction xs) auto

lemma count_filter: "P x \<Longrightarrow> count_list (filter P xs) x = count_list xs x"
  by (induction xs) auto

lemma count_no_start: "\<forall>e\<in>set xs. \<not> is_start e \<Longrightarrow> count_list xs (EvStart i) = 0"
  by (induction xs) auto

lemma events_driver: "e \<in> set (events (driver r)) \<Longrightarrow> is_init e \<or> is_start e"
  using events_started_phases [of e "tiers (processes r)"]
  by (auto simp: driver_def events_def)

lemma count_start_driver:
  assumes "i < length (processes r)"
  shows "count_list (events (driver r)) (EvStart i) = 1"
proof -
  let ?T = "tiers (processes r)"
  have "\<forall>e\<in>set (events (map (\<lambda>x. Seq (EvInit (fst x))) (initializer_units (initializers r)))).
          \<not> is_start e"
    by (auto simp: events_def)
  then have 0: "count_list (events (map (\<lambda>x. Seq (EvInit (fst x)))
                  (initializer_units (initializers r)))) (EvStart i) = 0"
    by (rule count_no_start)
  have "(i, processes r ! i) \<in> set (enumerate 0 (processes r))"
    using assms by (simp add: in_set_enumerate_eq)
  then have "(i, processes r ! i) \<in> set (concat ?T)"
    by (simp only: set_tiers)
  then have mem: "i \<in> set (map fst (concat ?T))"
    by force
  have "count_list (events (concat (map started_phases ?T))) (EvStart i)
          = count_list (filter is_start (events (concat (map started_phases ?T)))) (EvStart i)"
    by (simp add: count_filter)
  also have "\<dots> = count_list (map fst (concat ?T)) i"
    by (simp only: starts_started_phases count_starts)
  also have "\<dots> = 1"
    using count_distinct [OF distinct_tiers [of "processes r"], of i] mem by simp
  finally show ?thesis
    using 0 by (simp add: driver_def)
qed

lemma running_signals:
  assumes "\<forall>s\<in>set pre. \<exists>i<length ps. s = Exit i None \<and> silentExit (ps ! i)"
    and "k < length ps" and "Exit k None \<notin> set pre"
  shows "\<exists>running. running \<noteq> [] \<and> map_of running k = Some (ps ! k)
           \<and> (\<forall>rest. supervise (concat (rev (tiers ps))) (pre @ rest) = supervise running rest)"
proof -
  let ?all = "concat (rev (tiers ps))"
  let ?run = "filter (\<lambda>(j, p). Exit j None \<notin> set pre) ?all"
  have m: "mset ?all = mset (concat (tiers ps))"
    by (rule mset_concat_rev)
  then have set_all: "set ?all = set (enumerate 0 ps)"
    using set_tiers [of ps] by (metis set_mset_mset)
  have "mset (map fst ?all) = mset (map fst (concat (tiers ps)))"
    using m by simp
  then have d: "distinct (map fst ?all)"
    using distinct_tiers [of ps] by (metis mset_eq_imp_distinct_iff)
  have k: "(k, ps ! k) \<in> set ?all"
    unfolding set_all using assms(2) by (simp add: in_set_enumerate_eq)
  have ben: "\<forall>s\<in>set pre. \<exists>i. s = Exit i None \<and> (\<forall>p. (i, p) \<in> set ?all \<longrightarrow> silentExit p)"
  proof
    fix s
    assume "s \<in> set pre"
    with assms(1) obtain i where i: "s = Exit i None" "silentExit (ps ! i)"
      by blast
    have "silentExit p" if "(i, p) \<in> set ?all" for p
      using that i(2) unfolding set_all by (simp add: in_set_enumerate_eq)
    then show "\<exists>i. s = Exit i None \<and> (\<forall>p. (i, p) \<in> set ?all \<longrightarrow> silentExit p)"
      using i(1) by blast
  qed
  have kin: "(k, ps ! k) \<in> set ?run"
    using k assms(3) by simp
  have dr: "distinct (map fst ?run)"
    using d by (rule distinct_map_filter)
  have 1: "?run \<noteq> []"
    using kin by (metis empty_iff empty_set)
  have 2: "map_of ?run k = Some (ps ! k)"
    using kin dr by (metis map_of_eq_Some_iff)
  have 3: "supervise ?all (pre @ rest) = supervise ?run rest" for rest
    using ben k assms(3) by (rule supervise_benign)
  show ?thesis
    using 1 2 3 by blast
qed

lemma linearizations_close:
  "tr \<in> set (linearizations (ps @ [Seq EvClose])) \<Longrightarrow> tr \<noteq> [] \<and> last tr = EvClose"
  unfolding linearizations_append by auto

text \<open>
  C5: when every \<^verbatim>\<open>Init\<close> has succeeded, the returns with nil of processes registered with
  silentExit are benign: as long as the supervisor has seen only such returns, and a process
  without silentExit is still running, the run is waiting, and the runner has called no
  \<^verbatim>\<open>Stop\<close>, emitted no error and not closed the stream (its events are calls of \<^verbatim>\<open>Init\<close> and
  \<^verbatim>\<open>Start\<close> only). When the \<^verbatim>\<open>Start\<close> of a process without silentExit then returns, with nil
  or with an error, the cascade runs: every process has been started once and is stopped
  exactly once, and the closing of the stream is the last event.
\<close>

theorem silent_exit_benign:
  assumes "\<forall>u\<in>set (initializers r). initResult u = None"
    and "\<forall>p\<in>set (processes r). initResult (proc p) = None"
    and "\<forall>s\<in>set pre. \<exists>i<length (processes r). s = Exit i None \<and> silentExit (processes r ! i)"
    and "k < length (processes r)" and "\<not> silentExit (processes r ! k)"
  shows "ending (Run r pre) = Waiting
       \<and> (\<forall>tr\<in>runs r pre. \<forall>e\<in>set tr. is_init e \<or> is_start e)
       \<and> ending (Run r (pre @ [Exit k ret])) = Cascaded
       \<and> (\<forall>tr\<in>runs r (pre @ [Exit k ret]).
            (\<forall>i<length (processes r). count_list tr (EvStart i) = 1 \<and> count_list tr (EvStop i) = 1)
            \<and> last tr = EvClose)"
proof -
  let ?ps = "processes r"
  have kpre: "Exit k None \<notin> set pre"
    using assms(3,5) by auto
  from running_signals [OF assms(3,4) kpre] obtain running where
    ne: "running \<noteq> []" and mk: "map_of running k = Some (?ps ! k)"
    and sup: "\<And>rest. supervise (concat (rev (tiers ?ps))) (pre @ rest) = supervise running rest"
    by blast
  have "supervise (concat (rev (tiers ?ps))) pre = ([], Waiting)"
    using sup [of "[]"] ne by simp
  then have run1: "Run r pre = \<lparr>trace = driver r, ending = Waiting\<rparr>"
    by (simp add: Run_all_ok [OF assms(1,2)] closing_def)
  have 1: "ending (Run r pre) = Waiting"
    by (simp add: run1)
  have 2: "\<forall>tr\<in>runs r pre. \<forall>e\<in>set tr. is_init e \<or> is_start e"
    using set_linearizations events_driver by (fastforce simp: runs_def run1)
  obtain msg where "supervise running [Exit k ret] = ([Seq (EvEmit msg)], Cascaded)"
    using supervise_fatal [OF mk] supervise_exit_nil [OF mk assms(5)] by (cases ret) auto
  then have "supervise (concat (rev (tiers ?ps))) (pre @ [Exit k ret])
               = ([Seq (EvEmit msg)], Cascaded)"
    by (simp add: sup)
  then have run2: "Run r (pre @ [Exit k ret]) =
      \<lparr>trace = driver r @ [Seq (EvEmit msg)] @ closing Cascaded (tiers ?ps), ending = Cascaded\<rparr>"
    by (simp add: Run_all_ok [OF assms(1,2)])
  have 3: "ending (Run r (pre @ [Exit k ret])) = Cascaded"
    by (simp add: run2)
  have 4: "(\<forall>i<length ?ps. count_list tr (EvStart i) = 1 \<and> count_list tr (EvStop i) = 1)
             \<and> last tr = EvClose"
    if tr: "tr \<in> runs r (pre @ [Exit k ret])" for tr
  proof -
    from tr have lin: "tr \<in> set (linearizations (trace (Run r (pre @ [Exit k ret]))))"
      by (simp add: runs_def)
    have "\<forall>e\<in>set (events (closing Cascaded (tiers ?ps))). \<not> is_start e"
      using closing_no_start by blast
    then have c: "count_list (events (closing Cascaded (tiers ?ps))) (EvStart i) = 0" for i
      by (rule count_no_start)
    have st: "count_list tr (EvStart i) = 1" if "i < length ?ps" for i
      using count_linearizations [OF lin, of "EvStart i"] count_start_driver [OF that] c [of i]
      by (simp add: run2)
    then have mem: "EvStart i \<in> set tr" if "i < length ?ps" for i
      using that by (metis count_list_0_iff zero_neq_one)
    have sp: "count_list tr (EvStop i) = 1" if "i < length ?ps" for i
      using run_counts [OF tr, of i] mem [OF that] 3 by simp
    have "last tr = EvClose"
      using lin linearizations_close [of tr "driver r @ [Seq (EvEmit msg)] @ cascade (rev (tiers ?ps))"]
      by (simp add: run2 closing_def)
    then show ?thesis
      using st sp by simp
  qed
  show ?thesis
    using 1 2 3 4 by blast
qed

lemma sorted_priorities: "sorted (priorities ps)" "distinct (priorities ps)"
  by (simp_all add: priorities_def)

lemma priority_mem: "x \<in> set (enumerate 0 ps) \<Longrightarrow> priority (snd x) \<in> set (priorities ps)"
  by (cases x) (auto simp: priorities_def in_set_enumerate_eq)

lemma stops_enumerate: "map (\<lambda>x. EvStop (fst x)) (enumerate 0 ps) = map EvStop [0..<length ps]"
proof -
  have "map (\<lambda>x. EvStop (fst x)) (enumerate 0 ps) = map EvStop (map fst (enumerate 0 ps))"
    by (simp only: map_map comp_def)
  then show ?thesis
    by (simp only: map_fst_enumerate add_0)
qed

lemma linearizations_single: "set (linearizations [Seq e]) = {[e]}"
  by simp

text \<open>
  C4: when every \<^verbatim>\<open>Init\<close> has succeeded, so that every process has been started, and
  after benign returns only the supervisor observes the \<^verbatim>\<open>Start\<close> of the process at position
  \<open>k\<close> returning an error, every sequence of events of the run consists of: calls of \<^verbatim>\<open>Init\<close> and
  \<^verbatim>\<open>Start\<close> only, among them the \<^verbatim>\<open>Start\<close> of every process; then the emission of
  \<^verbatim>\<open>"<name> returned a fatal error (<err>)"\<close>; then the \<^verbatim>\<open>Stop\<close> of every process, each once,
  no tier before a higher one; then the emissions of \<^verbatim>\<open>"<name> returned error from stop (<err>)"\<close>,
  one for each \<^verbatim>\<open>Stop\<close> that returned an error; then the closing of the stream.
\<close>

theorem start_error_cascade:
  assumes "\<forall>u\<in>set (initializers r). initResult u = None"
    and "\<forall>p\<in>set (processes r). initResult (proc p) = None"
    and "\<forall>s\<in>set pre. \<exists>i<length (processes r). s = Exit i None \<and> silentExit (processes r ! i)"
    and "k < length (processes r)" and "Exit k None \<notin> set pre"
    and "tr \<in> runs r (pre @ [Exit k (Some err)])"
  shows "\<exists>d s m. tr = d @ [EvEmit (fatal_error (pname (processes r ! k)) err)] @ s @ m @ [EvClose]
           \<and> (\<forall>e\<in>set d. is_init e \<or> is_start e)
           \<and> (\<forall>i<length (processes r). EvStart i \<in> set d)
           \<and> mset s = mset (map EvStop [0..<length (processes r)])
           \<and> reverse_tier_order (processes r) s
           \<and> mset m = mset (stop_errors (enumerate 0 (processes r)))"
proof -
  let ?ps = "processes r"
  let ?msg = "fatal_error (pname (?ps ! k)) err"
  from running_signals [OF assms(3,4,5)] obtain running where
    mk: "map_of running k = Some (?ps ! k)"
    and sup: "\<And>rest. supervise (concat (rev (tiers ?ps))) (pre @ rest) = supervise running rest"
    by blast
  have "supervise (concat (rev (tiers ?ps))) (pre @ [Exit k (Some err)])
          = ([Seq (EvEmit ?msg)], Cascaded)"
    unfolding sup by (rule supervise_fatal [OF mk])
  then have run: "trace (Run r (pre @ [Exit k (Some err)])) =
      driver r @ [Seq (EvEmit ?msg)] @ cascade (rev (tiers ?ps)) @ [Seq EvClose]"
    by (simp add: Run_all_ok [OF assms(1,2)] closing_def)
  from assms(6) obtain d c where tr: "tr = d @ [EvEmit ?msg] @ c @ [EvClose]"
    and d: "d \<in> set (linearizations (driver r))"
    and c: "c \<in> set (linearizations (cascade (rev (map (tier ?ps) (priorities ?ps)))))"
    unfolding runs_def run linearizations_append linearizations_single tiers_def by blast
  have sel: "filter (\<lambda>x. priority (snd x) \<in> set (priorities ?ps)) (enumerate 0 ?ps) = enumerate 0 ?ps"
    by (rule filter_True) (simp add: priority_mem)
  from cascade_linearization [OF sorted_priorities c] obtain s m where
    c': "c = s @ m" and s: "mset s = mset (map EvStop [0..<length ?ps])"
    and o: "reverse_tier_order ?ps s" and m: "mset m = mset (stop_errors (enumerate 0 ?ps))"
    unfolding sel stops_enumerate by blast
  have 1: "\<forall>e\<in>set d. is_init e \<or> is_start e"
    using set_linearizations [OF d] events_driver by blast
  have 2: "EvStart i \<in> set d" if "i < length ?ps" for i
  proof -
    have "count_list d (EvStart i) = 1"
      using count_linearizations [OF d] count_start_driver [OF that] by simp
    then show ?thesis
      by (metis count_list_0_iff zero_neq_one)
  qed
  show ?thesis
    using tr c' s o m 1 2 by (intro exI [of _ d] exI [of _ s] exI [of _ m]) simp
qed

lemma takeWhile_below:
  assumes "sorted xs" and "distinct xs" and "n \<in> set xs"
    and "\<forall>m\<in>set xs. m < n \<longrightarrow> P m" and "\<not> P n"
  shows "takeWhile P xs = filter (\<lambda>m. m < n) xs \<and> (\<exists>rest. dropWhile P xs = n # rest)"
  using assms
proof (induction xs)
  case Nil
  then show ?case by simp
next
  case (Cons x xs)
  show ?case
  proof (cases "x = n")
    case True
    have "\<forall>m\<in>set xs. \<not> m < n"
      using Cons.prems(1,2) True by auto
    then have "filter (\<lambda>m. m < n) xs = []"
      by (simp add: filter_empty_conv)
    then show ?thesis
      using True Cons.prems(5) by simp
  next
    case False
    then have n: "n \<in> set xs"
      using Cons.prems(3) by simp
    then have "x < n"
      using Cons.prems(1) False by auto
    then have "P x"
      using Cons.prems(4) by simp
    then show ?thesis
      using Cons.IH n Cons.prems \<open>x < n\<close> by simp
  qed
qed

lemma enumerate_split:
  "k < length ps \<Longrightarrow>
     enumerate 0 ps = enumerate 0 (take k ps) @ (k, ps ! k) # enumerate (Suc k) (drop (Suc k) ps)"
proof -
  assume k: "k < length ps"
  then have "ps = take k ps @ ps ! k # drop (Suc k) ps"
    by (rule id_take_nth_drop)
  then have "enumerate 0 ps = enumerate 0 (take k ps @ ps ! k # drop (Suc k) ps)"
    by simp
  also have "\<dots> = enumerate 0 (take k ps) @ (k, ps ! k) # enumerate (Suc k) (drop (Suc k) ps)"
    using k by (simp add: enumerate_append_eq min_def)
  finally show ?thesis .
qed

lemma events_started_tier:
  "events (started_phases t)
     = map (\<lambda>x. EvInit (Proc (fst x))) t @ map (\<lambda>x. EvStart (fst x)) t"
  by (induction t) (auto simp: started_phases_def events_def)

lemma events_concat: "events (concat pss) = concat (map events pss)"
  by (induction pss) simp_all

lemma started_phases_init:
  "EvInit (Proc j) \<in> set (events (concat (map started_phases S))) \<longleftrightarrow> j \<in> fst ` set (concat S)"
  by (auto simp: events_concat events_started_tier image_iff)

lemma started_phases_start:
  "EvStart j \<in> set (events (concat (map started_phases S))) \<longleftrightarrow> j \<in> fst ` set (concat S)"
  by (auto simp: events_concat events_started_tier image_iff)

lemma failing_tier:
  assumes "k < length ps" and "initResult (proc (ps ! k)) = Some err"
    and "\<forall>j<k. priority (ps ! j) = priority (ps ! k) \<longrightarrow> initResult (proc (ps ! j)) = None"
  shows "\<exists>A :: (nat \<times> registration) list.
            fst (init_units (tier_units (tier ps (priority (ps ! k)))))
              = map (\<lambda>x. Seq (EvInit (Proc (fst x)))) A
                  @ [Seq (EvInit (Proc k)), Seq (EvEmit (init_failure (pname (ps ! k)) err))]
            \<and> fst ` set A = {j. j < k \<and> priority (ps ! j) = priority (ps ! k)}"
proof -
  let ?n = "priority (ps ! k)"
  let ?f = "\<lambda>(i, p). priority p = ?n"
  let ?A = "filter ?f (enumerate 0 (take k ps))"
  let ?B = "filter ?f (enumerate (Suc k) (drop (Suc k) ps))"
  have "filter ?f (enumerate 0 ps)
          = filter ?f (enumerate 0 (take k ps) @ (k, ps ! k) # enumerate (Suc k) (drop (Suc k) ps))"
    by (rule arg_cong [OF enumerate_split [OF assms(1)]])
  then have t: "tier ps ?n = ?A @ (k, ps ! k) # ?B"
    by (simp add: tier_def)
  have mem: "i < k \<and> p = ps ! i \<and> priority (ps ! i) = ?n" if "(i, p) \<in> set ?A" for i p
    using that assms(1) by (auto simp: in_set_enumerate_eq)
  have "snd (snd u) = None" if "u \<in> set (tier_units ?A)" for u
  proof -
    from that obtain i p where ip: "(i, p) \<in> set ?A" and u: "u = (Proc i, pname p, initResult (proc p))"
      unfolding tier_units_def by (auto simp del: set_filter)
    from mem [OF ip] assms(3) have "initResult (proc p) = None"
      by simp
    then show ?thesis
      by (simp add: u)
  qed
  then have "list_all (\<lambda>x. snd (snd x) = None) (tier_units ?A)"
    by (simp only: list_all_iff) blast
  from init_units_fail [OF this, of "Proc k" "pname (ps ! k)" err "tier_units ?B"]
  have a: "fst (init_units (tier_units (tier ps ?n)))
          = map (\<lambda>x. Seq (EvInit (fst x))) (tier_units ?A)
              @ [Seq (EvInit (Proc k)), Seq (EvEmit (init_failure (pname (ps ! k)) err))]"
    by (simp add: t tier_units_def assms(2))
  have b: "map (\<lambda>x. Seq (EvInit (fst x))) (tier_units ?A)
                   = map (\<lambda>x. Seq (EvInit (Proc (fst x)))) ?A"
    by (simp add: tier_units_def comp_def case_prod_unfold)
  have c: "fst ` set ?A = {j. j < k \<and> priority (ps ! j) = ?n}"
  proof (intro set_eqI iffI)
    fix j
    assume "j \<in> fst ` set ?A"
    then obtain p where "(j, p) \<in> set ?A"
      by (auto simp del: set_filter)
    from mem [OF this] show "j \<in> {j. j < k \<and> priority (ps ! j) = ?n}"
      by simp
  next
    fix j
    assume "j \<in> {j. j < k \<and> priority (ps ! j) = ?n}"
    then have "(j, ps ! j) \<in> set ?A"
      using assms(1) by (simp add: in_set_enumerate_eq)
    then show "j \<in> fst ` set ?A"
      by (rule image_eqI [rotated]) simp
  qed
  have a': "fst (init_units (tier_units (tier ps ?n)))
          = map (\<lambda>x. Seq (EvInit (Proc (fst x)))) ?A
              @ [Seq (EvInit (Proc k)), Seq (EvEmit (init_failure (pname (ps ! k)) err))]"
    using a b by (simp only:)
  show ?thesis
    by (rule exI [of _ ?A]) (rule conjI [OF a' c])
qed

lemma failing_tiers:
  assumes "k < length ps" and "initResult (proc (ps ! k)) \<noteq> None"
    and "\<forall>j<length ps. priority (ps ! j) < priority (ps ! k) \<longrightarrow> initResult (proc (ps ! j)) = None"
  shows "takeWhile tier_ok (tiers ps)
           = map (tier ps) (filter (\<lambda>m. m < priority (ps ! k)) (priorities ps))
         \<and> (\<exists>rest. dropWhile tier_ok (tiers ps) = tier ps (priority (ps ! k)) # rest)
         \<and> \<not> list_all tier_ok (tiers ps)"
proof -
  let ?n = "priority (ps ! k)"
  have kin: "(k, ps ! k) \<in> set (enumerate 0 ps)"
    using assms(1) by (simp add: in_set_enumerate_eq)
  then have n: "?n \<in> set (priorities ps)"
    using priority_mem [of "(k, ps ! k)" ps] by simp
  have low: "\<forall>m\<in>set (priorities ps). m < ?n \<longrightarrow> (tier_ok \<circ> tier ps) m"
  proof (intro ballI impI)
    fix m
    assume "m < ?n"
    have "proc_ok x" if "x \<in> set (tier ps m)" for x
    proof -
      from that have "x \<in> set (enumerate 0 ps)" "priority (snd x) = m"
        by (auto simp: tier_def)
      then have "fst x < length ps" "snd x = ps ! fst x" "priority (ps ! fst x) < ?n"
        using \<open>m < ?n\<close> by (simp_all add: enumerate_nth)
      then show ?thesis
        using assms(3) by (simp add: proc_ok_def)
    qed
    then show "(tier_ok \<circ> tier ps) m"
      by (simp add: tier_ok_def list_all_iff)
  qed
  have "(k, ps ! k) \<in> set (tier ps ?n)"
    using kin by (simp add: tier_def)
  moreover have "\<not> proc_ok (k, ps ! k)"
    using assms(2) by (simp add: proc_ok_def)
  ultimately have bad: "\<not> (tier_ok \<circ> tier ps) ?n"
    by (auto simp: tier_ok_def list_all_iff)
  from takeWhile_below [OF sorted_priorities n low bad]
  obtain rest where tw: "takeWhile (tier_ok \<circ> tier ps) (priorities ps)
                           = filter (\<lambda>m. m < ?n) (priorities ps)"
    and dw: "dropWhile (tier_ok \<circ> tier ps) (priorities ps) = ?n # rest"
    by blast
  have 1: "takeWhile tier_ok (tiers ps) = map (tier ps) (filter (\<lambda>m. m < ?n) (priorities ps))"
    by (simp add: tiers_def takeWhile_map tw)
  have 2: "dropWhile tier_ok (tiers ps) = tier ps ?n # map (tier ps) rest"
    by (simp add: tiers_def dropWhile_map dw)
  have "tier ps ?n \<in> set (tiers ps)"
    using n by (simp add: tiers_def)
  then have 3: "\<not> list_all tier_ok (tiers ps)"
    using bad by (auto simp: list_all_iff)
  show ?thesis
    using 1 2 3 by blast
qed

lemma initializer_events:
  "e \<in> set (events (map (\<lambda>x. Seq (EvInit (fst x))) (initializer_units us))) \<Longrightarrow>
     \<exists>i. e = EvInit (Initializer i)"
  by (auto simp: events_def initializer_units_def)

lemma lower_tiers:
  "fst ` set (concat (map (tier ps) (filter (\<lambda>m. m < n) (priorities ps))))
     = {j. j < length ps \<and> priority (ps ! j) < n}"
proof (intro set_eqI iffI)
  fix j
  assume "j \<in> fst ` set (concat (map (tier ps) (filter (\<lambda>m. m < n) (priorities ps))))"
  then obtain p where "(j, p) \<in> set (concat (map (tier ps) (filter (\<lambda>m. m < n) (priorities ps))))"
    by force
  then have "(j, p) \<in> set (enumerate 0 ps)" and "priority p < n"
    unfolding set_tier_list by simp_all
  then show "j \<in> {j. j < length ps \<and> priority (ps ! j) < n}"
    by (simp add: in_set_enumerate_eq)
next
  fix j
  assume "j \<in> {j. j < length ps \<and> priority (ps ! j) < n}"
  then have e: "(j, ps ! j) \<in> set (enumerate 0 ps)" and l: "priority (ps ! j) < n"
    by (simp_all add: in_set_enumerate_eq)
  from priority_mem [OF e] l
  have "(j, ps ! j) \<in> set (concat (map (tier ps) (filter (\<lambda>m. m < n) (priorities ps))))"
    unfolding set_tier_list using e by simp
  then show "j \<in> fst ` set (concat (map (tier ps) (filter (\<lambda>m. m < n) (priorities ps))))"
    by (rule image_eqI [rotated]) simp
qed

text \<open>
  C2: when the initializers succeed, the \<^verbatim>\<open>Init\<close> of the process at position \<open>k\<close> fails,
  and every \<^verbatim>\<open>Init\<close> before it (the processes of lower tiers, and the earlier processes of its
  own tier) succeeds, every sequence of events of the run consists of: calls of \<^verbatim>\<open>Init\<close> and
  \<^verbatim>\<open>Start\<close>, where \<^verbatim>\<open>Init\<close> is called on the processes of the lower tiers and on the processes
  of the tier of \<open>k\<close> up to \<open>k\<close> and on no other, and \<^verbatim>\<open>Start\<close> on the processes of the
  lower tiers only; then the emission of the failure; then the \<^verbatim>\<open>Stop\<close> of exactly the
  processes of the lower tiers, each once, no tier before a higher one; then emissions only; then
  the closing of the stream. So no process of the tier of \<open>k\<close> is started or stopped, whether
  its \<^verbatim>\<open>Init\<close> succeeded or not. The witness below is the scenario of the claim: five
  processes with the priorities 1, 2, 3, 3, 3, the fourth failing.
\<close>

theorem init_error_partial_start:
  assumes "\<forall>u\<in>set (initializers r). initResult u = None"
    and "k < length (processes r)"
    and "initResult (proc (processes r ! k)) = Some err"
    and "\<forall>j<length (processes r). priority (processes r ! j) < priority (processes r ! k)
           \<longrightarrow> initResult (proc (processes r ! j)) = None"
    and "\<forall>j<k. priority (processes r ! j) = priority (processes r ! k)
           \<longrightarrow> initResult (proc (processes r ! j)) = None"
    and "tr \<in> runs r env"
  shows "\<exists>d s m. tr = d @ [EvEmit (init_failure (pname (processes r ! k)) err)] @ s @ m @ [EvClose]
     \<and> (\<forall>e\<in>set d. is_init e \<or> is_start e)
     \<and> (\<forall>j. EvInit (Proc j) \<in> set d \<longleftrightarrow>
             j < length (processes r)
             \<and> (priority (processes r ! j) < priority (processes r ! k)
                \<or> priority (processes r ! j) = priority (processes r ! k) \<and> j \<le> k))
     \<and> (\<forall>j. EvStart j \<in> set d \<longleftrightarrow>
             j < length (processes r) \<and> priority (processes r ! j) < priority (processes r ! k))
     \<and> distinct s
     \<and> set s = EvStop ` {j. j < length (processes r)
                              \<and> priority (processes r ! j) < priority (processes r ! k)}
     \<and> reverse_tier_order (processes r) s
     \<and> (\<forall>e\<in>set m. is_emit e)"
proof -
  let ?ps = "processes r"
  let ?n = "priority (?ps ! k)"
  let ?low = "filter (\<lambda>m. m < ?n) (priorities ?ps)"
  define S where "S = map (tier ?ps) ?low"
  let ?I = "map (\<lambda>x. Seq (EvInit (fst x))) (initializer_units (initializers r))"
  let ?msg = "init_failure (pname (?ps ! k)) err"
  let ?sel = "filter (\<lambda>x. priority (snd x) \<in> set ?low) (enumerate 0 ?ps)"
  have bad: "initResult (proc (?ps ! k)) \<noteq> None"
    using assms(3) by simp
  from failing_tiers [OF assms(2) bad assms(4)] obtain rest where
    tw: "takeWhile tier_ok (tiers ?ps) = S"
    and dw: "dropWhile tier_ok (tiers ?ps) = tier ?ps ?n # rest"
    and na: "\<not> list_all tier_ok (tiers ?ps)"
    unfolding S_def by blast
  have lt: "fst ` set (concat S) = {j. j < length ?ps \<and> priority (?ps ! j) < ?n}"
    unfolding S_def by (rule lower_tiers)
  from failing_tier [OF assms(2,3,5)] obtain A :: "(nat \<times> registration) list" where
    f: "fst (init_units (tier_units (tier ?ps ?n)))
          = map (\<lambda>x. Seq (EvInit (Proc (fst x)))) A @ [Seq (EvInit (Proc k)), Seq (EvEmit ?msg)]"
    and A: "fst ` set A = {j. j < k \<and> priority (?ps ! j) = ?n}"
    by blast
  let ?D = "?I @ concat (map started_phases S) @ map (\<lambda>x. Seq (EvInit (Proc (fst x)))) A
              @ [Seq (EvInit (Proc k))]"
  have run: "trace (Run r env) = ?D @ [Seq (EvEmit ?msg)] @ cascade (rev S) @ [Seq EvClose]"
    using na by (simp add: Run_def initializers_ok [OF assms(1)] run_tiers_eq tw dw f)
  from assms(6) obtain d c where tr: "tr = d @ [EvEmit ?msg] @ c @ [EvClose]"
    and d: "d \<in> set (linearizations ?D)"
    and c: "c \<in> set (linearizations (cascade (rev S)))"
    unfolding runs_def run linearizations_append [of ?D] linearizations_append [of "[Seq (EvEmit ?msg)]"]
      linearizations_append [of "cascade (rev S)"] linearizations_single
    by blast
  have sl: "sorted ?low" "distinct ?low"
    using sorted_priorities [of ?ps] by (simp_all add: sorted_filter [where f = "\<lambda>x. x", simplified])
  from cascade_linearization [OF sl c [unfolded S_def]] obtain s m where
    c': "c = s @ m" and s: "mset s = mset (map (\<lambda>x. EvStop (fst x)) ?sel)"
    and o: "reverse_tier_order ?ps s" and m: "mset m = mset (stop_errors ?sel)"
    by blast
  have evD: "set d = set (events ?D)"
    using d by (rule set_linearizations)
  have ev: "events ?D = events ?I @ events (concat (map started_phases S))
                @ map (\<lambda>x. EvInit (Proc (fst x))) A @ [EvInit (Proc k)]"
    by (simp add: events_def comp_def)
  have "is_init e \<or> is_start e" if "e \<in> set d" for e
  proof -
    from that consider "e \<in> set (events ?I)" | "e \<in> set (events (concat (map started_phases S)))"
      | "e \<in> set (map (\<lambda>x. EvInit (Proc (fst x))) A)" | "e = EvInit (Proc k)"
      unfolding evD ev by auto
    then show ?thesis
    proof cases
      case 1
      then show ?thesis
        using initializer_events [of e "initializers r"] by auto
    next
      case 2
      then show ?thesis
        by (rule events_started_phases)
    qed auto
  qed
  then have 1: "\<forall>e\<in>set d. is_init e \<or> is_start e"
    by blast
  have 2: "EvInit (Proc j) \<in> set d \<longleftrightarrow>
             j < length ?ps \<and> (priority (?ps ! j) < ?n \<or> priority (?ps ! j) = ?n \<and> j \<le> k)" for j
  proof -
    have "EvInit (Proc j) \<notin> set (events ?I)"
      using initializer_events [of "EvInit (Proc j)" "initializers r"] by auto
    moreover have "EvInit (Proc j) \<in> set (map (\<lambda>x. EvInit (Proc (fst x))) A) \<longleftrightarrow> j \<in> fst ` set A"
      by (auto simp: image_iff)
    ultimately have "EvInit (Proc j) \<in> set d \<longleftrightarrow>
        j \<in> fst ` set (concat S) \<or> j \<in> fst ` set A \<or> j = k"
      unfolding evD ev by (simp add: started_phases_init) blast
    then show ?thesis
      unfolding lt A using assms(2) by auto
  qed
  have 3: "EvStart j \<in> set d \<longleftrightarrow> j < length ?ps \<and> priority (?ps ! j) < ?n" for j
  proof -
    have "EvStart j \<notin> set (events ?I)"
      using initializer_events [of "EvStart j" "initializers r"] by auto
    then have "EvStart j \<in> set d \<longleftrightarrow> j \<in> fst ` set (concat S)"
      unfolding evD ev by (auto simp: started_phases_start)
    then show ?thesis
      unfolding lt by simp
  qed
  have dsel: "distinct (map fst ?sel)"
    by (simp add: distinct_map_filter)
  have "distinct (map (\<lambda>x. EvStop (fst x)) ?sel)"
    using dsel by (simp add: distinct_map inj_on_def)
  then have 4: "distinct s"
    using s by (metis mset_eq_imp_distinct_iff)
  have "set s = set (map (\<lambda>x. EvStop (fst x)) ?sel)"
    using s by (metis set_mset_mset)
  also have "\<dots> = EvStop ` fst ` set (concat S)"
    unfolding S_def set_tier_list by (simp add: image_image)
  finally have 5: "set s = EvStop ` {j. j < length ?ps \<and> priority (?ps ! j) < ?n}"
    unfolding lt .
  have "set m = set (stop_errors ?sel)"
    using m by (metis set_mset_mset)
  then have 6: "\<forall>e\<in>set m. is_emit e"
    using stop_errors_emit by blast
  show ?thesis
    using tr c' 1 2 3 4 5 o 6
    by (intro exI [of _ d] exI [of _ s] exI [of _ m]) simp
qed

lemmas scenario_defs = scenarioA_def scenarioB_def scenarioC_def scenarioD_def
  NewProcessRunner_def RegisterInitializer_def RegisterProcess_def mock_def Let_def

lemmas run_defs = Run_def initializer_units_def tier_units_def tiers_def tier_def priorities_def
  cascade_def stop_errors_def init_failure_def fatal_error_def stop_failure_def

lemma runs_scenarioD: "runs scenarioD env = {traceD}"
  by (simp add: runs_def scenario_defs run_defs traceD_def)

lemma runs_scenarioC: "runs scenarioC [Exit 3 (Some ''error in start'')] = {traceC}"
  by (simp add: runs_def scenario_defs run_defs traceC_def)


lemma driver_scenarioA:
  "driver scenarioA =
     [Seq (EvInit (Initializer 0)), Seq (EvInit (Initializer 1)), Seq (EvInit (Initializer 2)),
      Seq (EvInit (Proc 0)), Seq (EvInit (Proc 2)), Par [EvStart 0, EvStart 2],
      Seq (EvInit (Proc 1)), Seq (EvInit (Proc 3)), Par [EvStart 1, EvStart 3]]"
  by (simp add: driver_def started_phases_def scenario_defs run_defs)

lemma trace_scenarioB_1:
  "Run scenarioB [Exit 0 None, Exit 1 None] =
     \<lparr>trace = [Seq (EvInit (Proc 0)), Seq (EvInit (Proc 2)), Par [EvStart 0, EvStart 2],
               Seq (EvInit (Proc 1)), Seq (EvInit (Proc 3)), Par [EvStart 1, EvStart 3]],
      ending = Waiting\<rparr>"
  by (simp add: scenario_defs run_defs)

lemma trace_scenarioB_2:
  "Run scenarioB [Exit 0 None, Exit 1 None, Exit 2 None] =
     \<lparr>trace = [Seq (EvInit (Proc 0)), Seq (EvInit (Proc 2)), Par [EvStart 0, EvStart 2],
               Seq (EvInit (Proc 1)), Seq (EvInit (Proc 3)), Par [EvStart 1, EvStart 3],
               Seq (EvEmit ''*nacelle.mockProcess returned a fatal error (<nil>)''),
               Par [EvStop 1, EvStop 3], Par [EvStop 0, EvStop 2], Par [], Par [],
               Seq EvClose],
      ending = Cascaded\<rparr>"
  by (simp add: scenario_defs run_defs)

lemma projection_prefix:
  assumes "\<forall>e\<in>set (events D). P e" and "\<forall>e\<in>set (events rest). \<not> P e"
  shows "filter P ` set (linearizations (D @ rest)) = set (linearizations D)"
proof (intro set_eqI iffI)
  fix x
  assume "x \<in> filter P ` set (linearizations (D @ rest))"
  then obtain d y where x: "x = filter P (d @ y)" and d: "d \<in> set (linearizations D)"
    and y: "y \<in> set (linearizations rest)"
    unfolding linearizations_append by blast
  have "filter P d = d"
    using assms(1) set_linearizations [OF d] by (simp add: filter_id_conv)
  moreover have "filter P y = []"
    using assms(2) set_linearizations [OF y] by (simp add: filter_empty_conv)
  ultimately show "x \<in> set (linearizations D)"
    using x d by simp
next
  fix x
  assume d: "x \<in> set (linearizations D)"
  have y: "events rest \<in> set (linearizations rest)"
    by (rule events_linearization)
  have "filter P x = x"
    using assms(1) set_linearizations [OF d] by (simp add: filter_id_conv)
  moreover have "filter P (events rest) = []"
    using assms(2) by (simp add: filter_empty_conv)
  ultimately have "x = filter P (x @ events rest)"
    by simp
  moreover have "x @ events rest \<in> set (linearizations (D @ rest))"
    unfolding linearizations_append using d y by blast
  ultimately show "x \<in> filter P ` set (linearizations (D @ rest))"
    by (rule image_eqI)
qed

lemma scenarioA_ok:
  "\<forall>u\<in>set (initializers scenarioA). initResult u = None"
  "\<forall>p\<in>set (processes scenarioA). initResult (proc p) = None"
  by (simp_all add: scenario_defs)

text \<open>
  C1: in the scenario of \<^verbatim>\<open>TestRunOrder\<close>, whatever the supervisor observes afterwards, the
  calls of \<^verbatim>\<open>Init\<close> and \<^verbatim>\<open>Start\<close> of a run are exactly: \<^verbatim>\<open>Init\<close> of init1, init2, init3,
  proc1, proc3; then \<^verbatim>\<open>Start\<close> of proc1 and proc3 in either order; then \<^verbatim>\<open>Init\<close> of proc2,
  proc4; then \<^verbatim>\<open>Start\<close> of proc2 and proc4 in either order. Each of the four sequences occurs.
\<close>

theorem run_order:
  "filter (\<lambda>e. is_init e \<or> is_start e) ` runs scenarioA env =
     {orderA [EvStart 0, EvStart 2] [EvStart 1, EvStart 3],
      orderA [EvStart 0, EvStart 2] [EvStart 3, EvStart 1],
      orderA [EvStart 2, EvStart 0] [EvStart 1, EvStart 3],
      orderA [EvStart 2, EvStart 0] [EvStart 3, EvStart 1]}"
proof -
  let ?P = "\<lambda>e. is_init e \<or> is_start e"
  obtain tr2 e where sup: "supervise (concat (rev (tiers (processes scenarioA)))) env = (tr2, e)"
    by (cases "supervise (concat (rev (tiers (processes scenarioA)))) env") auto
  let ?rest = "tr2 @ closing e (tiers (processes scenarioA))"
  have run: "trace (Run scenarioA env) = driver scenarioA @ ?rest"
    by (simp add: Run_all_ok [OF scenarioA_ok] sup)
  have 1: "\<forall>x\<in>set (events (driver scenarioA)). ?P x"
    using events_driver by blast
  have "\<not> ?P x" if "x \<in> set (events ?rest)" for x
  proof -
    from that consider "x \<in> set (events tr2)"
      | "x \<in> set (events (closing e (tiers (processes scenarioA))))"
      by auto
    then have "is_emit x \<or> is_stop x \<or> x = EvClose"
    proof cases
      case 1
      then show ?thesis
        using supervise_events [of x "concat (rev (tiers (processes scenarioA)))" env] sup by simp
    next
      case 2
      then show ?thesis
        using closing_kind by blast
    qed
    then show ?thesis
      by (cases x) auto
  qed
  then have 2: "\<forall>x\<in>set (events ?rest). \<not> ?P x"
    by blast
  have "filter ?P ` runs scenarioA env = set (linearizations (driver scenarioA))"
    unfolding runs_def run using 1 2 by (rule projection_prefix)
  also have "\<dots> =
     {orderA [EvStart 0, EvStart 2] [EvStart 1, EvStart 3],
      orderA [EvStart 0, EvStart 2] [EvStart 3, EvStart 1],
      orderA [EvStart 2, EvStart 0] [EvStart 1, EvStart 3],
      orderA [EvStart 2, EvStart 0] [EvStart 3, EvStart 1]}"
    unfolding driver_scenarioA orderA_def by auto
  finally show ?thesis .
qed

theorem run_order_witness:
  "orderA [EvStart 2, EvStart 0] [EvStart 1, EvStart 3]
     \<in> filter (\<lambda>e. is_init e \<or> is_start e) ` runs scenarioA [Exit 0 None]
   \<and> [EvInit (Initializer 0), EvInit (Initializer 1), EvInit (Initializer 2),
       EvInit (Proc 0), EvInit (Proc 2), EvStart 0, EvStart 2,
       EvInit (Proc 1), EvInit (Proc 3), EvStart 3, EvStart 1]
     \<in> filter (\<lambda>e. is_init e \<or> is_start e) ` runs scenarioA [Exit 0 None]"
  unfolding run_order [of "[Exit 0 None]"] by (simp add: orderA_def)

lemma processes_scenarioD:
  "processes scenarioD =
     [\<lparr>proc = mock None None, pname = ''*nacelle.mockProcess'', priority = 1, silentExit = False\<rparr>,
      \<lparr>proc = mock None None, pname = ''*nacelle.mockProcess'', priority = 2, silentExit = False\<rparr>,
      \<lparr>proc = mock None None, pname = ''*nacelle.mockProcess'', priority = 3, silentExit = False\<rparr>,
      \<lparr>proc = mock (Some ''error in init'') None, pname = ''foo'', priority = 3,
        silentExit = False\<rparr>,
      \<lparr>proc = mock None None, pname = ''*nacelle.mockProcess'', priority = 3, silentExit = False\<rparr>]"
  "initializers scenarioD = []"
  by (simp_all add: scenario_defs)

text \<open>
  The witness of C2, the scenario of \<^verbatim>\<open>TestInitializationError\<close>: the run has one sequence of
  events; proc3 is initialised but neither started nor stopped, proc5 is not initialised, and
  the cascade stops proc2, then proc1.
\<close>

theorem init_error_partial_start_witness:
  "initializers scenarioD = []
   \<and> 3 < length (processes scenarioD)
   \<and> initResult (proc (processes scenarioD ! 3)) = Some ''error in init''
   \<and> map (\<lambda>p. (priority p, initResult (proc p))) (processes scenarioD)
       = [(1, None), (2, None), (3, None), (3, Some ''error in init''), (3, None)]
   \<and> runs scenarioD [] = {traceD}
   \<and> traceD =
       [EvInit (Proc 0), EvStart 0, EvInit (Proc 1), EvStart 1, EvInit (Proc 2), EvInit (Proc 3)]
         @ [EvEmit (init_failure ''foo'' ''error in init'')] @ [EvStop 1, EvStop 0] @ [] @ [EvClose]
   \<and> (\<exists>d s m. traceD = d @ [EvEmit (init_failure ''foo'' ''error in init'')] @ s @ m @ [EvClose]
        \<and> (\<forall>j. EvStart j \<in> set d \<longleftrightarrow>
               j < 5 \<and> priority (processes scenarioD ! j) < 3)
        \<and> distinct s
        \<and> set s = EvStop ` {j. j < 5 \<and> priority (processes scenarioD ! j) < 3}
        \<and> reverse_tier_order (processes scenarioD) s)"
proof -
  note p = processes_scenarioD
  have h1: "\<forall>u\<in>set (initializers scenarioD). initResult u = None"
    by (simp add: p)
  have h2: "3 < length (processes scenarioD)"
    by (simp add: p)
  have h3: "initResult (proc (processes scenarioD ! 3)) = Some ''error in init''"
    by (simp add: p mock_def)
  have h4: "\<forall>j<length (processes scenarioD).
      priority (processes scenarioD ! j) < priority (processes scenarioD ! 3)
        \<longrightarrow> initResult (proc (processes scenarioD ! j)) = None"
    by (simp add: p mock_def All_less_Suc)
  have h5: "\<forall>j<3. priority (processes scenarioD ! j) = priority (processes scenarioD ! 3)
        \<longrightarrow> initResult (proc (processes scenarioD ! j)) = None"
    by (simp add: p mock_def All_less_Suc numeral_3_eq_3)
  have h6: "traceD \<in> runs scenarioD []"
    by (simp add: runs_scenarioD)
  have n: "pname (processes scenarioD ! 3) = ''foo''" "priority (processes scenarioD ! 3) = 3"
    "length (processes scenarioD) = 5"
    by (simp_all add: p)
  have t: "traceD =
       [EvInit (Proc 0), EvStart 0, EvInit (Proc 1), EvStart 1, EvInit (Proc 2), EvInit (Proc 3)]
         @ [EvEmit (init_failure ''foo'' ''error in init'')] @ [EvStop 1, EvStop 0] @ [] @ [EvClose]"
    by (simp add: traceD_def init_failure_def)
  from init_error_partial_start [OF h1 h2 h3 h4 h5 h6]
  obtain d s m where "traceD = d @ [EvEmit (init_failure ''foo'' ''error in init'')] @ s @ m @ [EvClose]"
    and "\<forall>j. EvStart j \<in> set d \<longleftrightarrow> j < 5 \<and> priority (processes scenarioD ! j) < 3"
    and "distinct s"
    and "set s = EvStop ` {j. j < 5 \<and> priority (processes scenarioD ! j) < 3}"
    and "reverse_tier_order (processes scenarioD) s"
    unfolding n by blast
  then have "\<exists>d s m. traceD = d @ [EvEmit (init_failure ''foo'' ''error in init'')] @ s @ m @ [EvClose]
        \<and> (\<forall>j. EvStart j \<in> set d \<longleftrightarrow>
               j < 5 \<and> priority (processes scenarioD ! j) < 3)
        \<and> distinct s
        \<and> set s = EvStop ` {j. j < 5 \<and> priority (processes scenarioD ! j) < 3}
        \<and> reverse_tier_order (processes scenarioD) s"
    by blast
  moreover have "map (\<lambda>p. (priority p, initResult (proc p))) (processes scenarioD)
       = [(1, None), (2, None), (3, None), (3, Some ''error in init''), (3, None)]"
    by (simp add: p mock_def)
  ultimately show ?thesis
    using p(2) h2 h3 t runs_scenarioD [of "[]"] by (intro conjI) assumption+
qed

text \<open>
  A run that ends with no cascade is a natural termination: every process was registered with
  silentExit and its \<^verbatim>\<open>Start\<close> returned nil.
\<close>

lemma supervise_Clean:
  assumes "distinct (map fst running)" and "snd (supervise running env) = Clean"
    and "(i, p) \<in> set running"
  shows "silentExit p \<and> Exit i None \<in> set env"
  using assms
proof (induction running env rule: supervise.induct)
  case (1 running)
  then show ?case by (auto split: if_splits)
next
  case (2 running env)
  then show ?case by (auto split: if_splits)
next
  case (3 running j r env)
  from "3.prems"(3) have ne: "running \<noteq> []"
    by auto
  show ?case
  proof (cases "map_of running j")
    case None
    with "3.IH"(1) [OF ne None "3.prems"(1) _ "3.prems"(3)] "3.prems"(2) ne show ?thesis
      by simp
  next
    case (Some q)
    with "3.prems"(2) ne have r: "r = None" and sil: "silentExit q"
      by (auto split: option.splits if_splits)
    let ?run = "filter (\<lambda>(k, q). k \<noteq> j) running"
    have d: "distinct (map fst ?run)"
      using "3.prems"(1) by (rule distinct_map_filter)
    have c: "snd (supervise ?run env) = Clean"
      using "3.prems"(2) ne Some r sil by simp
    show ?thesis
    proof (cases "i = j")
      case True
      with "3.prems"(1,3) Some have "p = q"
        by simp
      with sil True r show ?thesis
        by simp
    next
      case False
      with "3.prems"(3) have "(i, p) \<in> set ?run"
        by simp
      from "3.IH"(2) [OF ne Some r sil d c this] show ?thesis
        by simp
    qed
  qed
qed

lemma natural_termination:
  assumes "ending (Run r env) = Clean" and "k < length (processes r)"
  shows "silentExit (processes r ! k) \<and> Exit k None \<in> set env"
proof -
  let ?T = "tiers (processes r)"
  obtain tr0 ok0 where i: "init_units (initializer_units (initializers r)) = (tr0, ok0)"
    by (cases "init_units (initializer_units (initializers r))") auto
  obtain tr2 e where s: "supervise (concat (rev ?T)) env = (tr2, e)"
    by (cases "supervise (concat (rev ?T)) env") auto
  have "ending (Run r env) = (if ok0 \<and> list_all tier_ok ?T then e else Cascaded)"
  proof (cases "list_all tier_ok ?T")
    case True
    then have tw: "takeWhile tier_ok ?T = ?T"
      by (simp add: list_all_iff)
    show ?thesis
      by (cases ok0; cases e) (simp_all add: Run_def i run_tiers_eq tw s True)
  next
    case False
    show ?thesis
      by (cases ok0) (simp_all add: Run_def i run_tiers_eq False)
  qed
  with assms(1) have e: "e = Clean"
    by (simp split: if_splits)
  have "mset (map fst (concat (rev ?T))) = mset (map fst (concat ?T))"
    using mset_concat_rev [of ?T] by simp
  then have d: "distinct (map fst (concat (rev ?T)))"
    using distinct_tiers [of "processes r"] by (metis mset_eq_imp_distinct_iff)
  have "set (concat (rev ?T)) = set (enumerate 0 (processes r))"
    using mset_concat_rev [of ?T] set_tiers [of "processes r"] by (metis set_mset_mset)
  with assms(2) have m: "(k, processes r ! k) \<in> set (concat (rev ?T))"
    by (simp add: in_set_enumerate_eq)
  have "snd (supervise (concat (rev ?T)) env) = Clean"
    using s e by simp
  from supervise_Clean [OF d this m] show ?thesis .
qed




lemma processes_scenarioC:
  "processes scenarioC =
     [\<lparr>proc = mock None None, pname = ''*nacelle.mockProcess'', priority = 1, silentExit = False\<rparr>,
      \<lparr>proc = mock None (Some ''error in stop''), pname = ''foo'', priority = 2,
        silentExit = False\<rparr>,
      \<lparr>proc = mock None None, pname = ''*nacelle.mockProcess'', priority = 3, silentExit = False\<rparr>,
      \<lparr>proc = mock None None, pname = ''bar'', priority = 4, silentExit = False\<rparr>]"
  "initializers scenarioC = []"
  by (simp_all add: scenario_defs)

text \<open>
  The witness of C4, the scenario of \<^verbatim>\<open>TestProcessError\<close>: the run has one sequence of events;
  after the starts comes the error of bar, then the stops of proc4, proc3, proc2, proc1, then
  the error of the stop of foo, then the closing.
\<close>

theorem start_error_cascade_witness:
  "initializers scenarioC = []
   \<and> map (\<lambda>p. initResult (proc p)) (processes scenarioC) = [None, None, None, None]
   \<and> 3 < length (processes scenarioC)
   \<and> runs scenarioC ([] @ [Exit 3 (Some ''error in start'')]) = {traceC}
   \<and> traceC =
       [EvInit (Proc 0), EvStart 0, EvInit (Proc 1), EvStart 1, EvInit (Proc 2), EvStart 2,
        EvInit (Proc 3), EvStart 3]
         @ [EvEmit (fatal_error ''bar'' ''error in start'')]
         @ [EvStop 3, EvStop 2, EvStop 1, EvStop 0]
         @ [EvEmit (stop_failure ''foo'' ''error in stop'')] @ [EvClose]
   \<and> (\<exists>d s m. traceC = d @ [EvEmit (fatal_error ''bar'' ''error in start'')] @ s @ m @ [EvClose]
        \<and> (\<forall>e\<in>set d. is_init e \<or> is_start e)
        \<and> mset s = mset (map EvStop [0..<4])
        \<and> reverse_tier_order (processes scenarioC) s
        \<and> mset m = mset [EvEmit (stop_failure ''foo'' ''error in stop'')])"
proof -
  note p = processes_scenarioC
  have h1: "\<forall>u\<in>set (initializers scenarioC). initResult u = None"
    by (simp add: p)
  have h2: "\<forall>p\<in>set (processes scenarioC). initResult (proc p) = None"
    by (simp add: p mock_def)
  have h3: "\<forall>s\<in>set []. \<exists>i<length (processes scenarioC).
              s = Exit i None \<and> silentExit (processes scenarioC ! i)"
    by simp
  have h4: "3 < length (processes scenarioC)"
    by (simp add: p)
  have h5: "Exit 3 None \<notin> set []"
    by simp
  have r: "runs scenarioC ([] @ [Exit 3 (Some ''error in start'')]) = {traceC}"
    using runs_scenarioC by simp
  then have h6: "traceC \<in> runs scenarioC ([] @ [Exit 3 (Some ''error in start'')])"
    by simp
  have n: "pname (processes scenarioC ! 3) = ''bar''" "length (processes scenarioC) = 4"
    "stop_errors (enumerate 0 (processes scenarioC)) = [EvEmit (stop_failure ''foo'' ''error in stop'')]"
    by (simp_all add: p stop_errors_def mock_def)
  have t: "traceC =
       [EvInit (Proc 0), EvStart 0, EvInit (Proc 1), EvStart 1, EvInit (Proc 2), EvStart 2,
        EvInit (Proc 3), EvStart 3]
         @ [EvEmit (fatal_error ''bar'' ''error in start'')]
         @ [EvStop 3, EvStop 2, EvStop 1, EvStop 0]
         @ [EvEmit (stop_failure ''foo'' ''error in stop'')] @ [EvClose]"
    by (simp add: traceC_def fatal_error_def stop_failure_def)
  from start_error_cascade [OF h1 h2 h3 h4 h5 h6]
  obtain d s m where "traceC = d @ [EvEmit (fatal_error ''bar'' ''error in start'')] @ s @ m @ [EvClose]"
    and "\<forall>e\<in>set d. is_init e \<or> is_start e"
    and "mset s = mset (map EvStop [0..<4])"
    and "reverse_tier_order (processes scenarioC) s"
    and "mset m = mset [EvEmit (stop_failure ''foo'' ''error in stop'')]"
    unfolding n by blast
  then have "\<exists>d s m. traceC = d @ [EvEmit (fatal_error ''bar'' ''error in start'')] @ s @ m @ [EvClose]
        \<and> (\<forall>e\<in>set d. is_init e \<or> is_start e)
        \<and> mset s = mset (map EvStop [0..<4])
        \<and> reverse_tier_order (processes scenarioC) s
        \<and> mset m = mset [EvEmit (stop_failure ''foo'' ''error in stop'')]"
    by blast
  moreover have "map (\<lambda>p. initResult (proc p)) (processes scenarioC) = [None, None, None, None]"
    by (simp add: p mock_def)
  ultimately show ?thesis
    using p(2) h4 r t by (intro conjI) assumption+
qed

lemma processes_scenarioB:
  "processes scenarioB =
     [\<lparr>proc = mock None None, pname = ''*nacelle.mockProcess'', priority = 1, silentExit = True\<rparr>,
      \<lparr>proc = mock None None, pname = ''*nacelle.mockProcess'', priority = 2, silentExit = True\<rparr>,
      \<lparr>proc = mock None None, pname = ''*nacelle.mockProcess'', priority = 1, silentExit = False\<rparr>,
      \<lparr>proc = mock None None, pname = ''*nacelle.mockProcess'', priority = 2, silentExit = False\<rparr>]"
  "initializers scenarioB = []"
  by (simp_all add: scenario_defs)

text \<open>
  The witness of C5, the scenario of \<^verbatim>\<open>TestRunNonBlockingProcesses\<close>: after proc1 and proc2
  have returned the run is waiting and has called \<^verbatim>\<open>Init\<close> and \<^verbatim>\<open>Start\<close> only; when proc3
  returns the cascade stops the four processes, tier 2 before tier 1, and the stream is closed.
\<close>

theorem silent_exit_benign_witness:
  "initializers scenarioB = []
   \<and> map (\<lambda>p. (initResult (proc p), silentExit p)) (processes scenarioB)
       = [(None, True), (None, True), (None, False), (None, False)]
   \<and> 2 < length (processes scenarioB) \<and> \<not> silentExit (processes scenarioB ! 2)
   \<and> Run scenarioB [Exit 0 None, Exit 1 None] =
       \<lparr>trace = [Seq (EvInit (Proc 0)), Seq (EvInit (Proc 2)), Par [EvStart 0, EvStart 2],
                 Seq (EvInit (Proc 1)), Seq (EvInit (Proc 3)), Par [EvStart 1, EvStart 3]],
        ending = Waiting\<rparr>
   \<and> Run scenarioB ([Exit 0 None, Exit 1 None] @ [Exit 2 None]) =
       \<lparr>trace = [Seq (EvInit (Proc 0)), Seq (EvInit (Proc 2)), Par [EvStart 0, EvStart 2],
                 Seq (EvInit (Proc 1)), Seq (EvInit (Proc 3)), Par [EvStart 1, EvStart 3],
                 Seq (EvEmit (fatal_error ''*nacelle.mockProcess'' ''<nil>'')),
                 Par [EvStop 1, EvStop 3], Par [EvStop 0, EvStop 2], Par [], Par [],
                 Seq EvClose],
        ending = Cascaded\<rparr>
   \<and> traceB \<in> runs scenarioB ([Exit 0 None, Exit 1 None] @ [Exit 2 None])
   \<and> count_list traceB (EvStop 0) = 1 \<and> count_list traceB (EvStop 1) = 1
   \<and> count_list traceB (EvStop 2) = 1 \<and> count_list traceB (EvStop 3) = 1
   \<and> last traceB = EvClose"
proof -
  note p = processes_scenarioB
  have h1: "\<forall>u\<in>set (initializers scenarioB). initResult u = None"
    by (simp add: p)
  have h2: "\<forall>p\<in>set (processes scenarioB). initResult (proc p) = None"
    by (simp add: p mock_def)
  have h3: "\<forall>s\<in>set [Exit 0 None, Exit 1 None].
         \<exists>i<length (processes scenarioB). s = Exit i None \<and> silentExit (processes scenarioB ! i)"
    by (simp add: p)
  have h4: "2 < length (processes scenarioB)"
    by (simp add: p)
  have h5: "\<not> silentExit (processes scenarioB ! 2)"
    by (simp add: p)
  have n: "length (processes scenarioB) = 4"
    by (simp add: p)
  have m: "map (\<lambda>p. (initResult (proc p), silentExit p)) (processes scenarioB)
       = [(None, True), (None, True), (None, False), (None, False)]"
    by (simp add: p mock_def)
  have r1: "Run scenarioB [Exit 0 None, Exit 1 None] =
       \<lparr>trace = [Seq (EvInit (Proc 0)), Seq (EvInit (Proc 2)), Par [EvStart 0, EvStart 2],
                 Seq (EvInit (Proc 1)), Seq (EvInit (Proc 3)), Par [EvStart 1, EvStart 3]],
        ending = Waiting\<rparr>"
    by (simp add: scenario_defs run_defs)
  have r2: "Run scenarioB ([Exit 0 None, Exit 1 None] @ [Exit 2 None]) =
       \<lparr>trace = [Seq (EvInit (Proc 0)), Seq (EvInit (Proc 2)), Par [EvStart 0, EvStart 2],
                 Seq (EvInit (Proc 1)), Seq (EvInit (Proc 3)), Par [EvStart 1, EvStart 3],
                 Seq (EvEmit (fatal_error ''*nacelle.mockProcess'' ''<nil>'')),
                 Par [EvStop 1, EvStop 3], Par [EvStop 0, EvStop 2], Par [], Par [],
                 Seq EvClose],
        ending = Cascaded\<rparr>"
    by (simp add: scenario_defs run_defs)
  have t: "traceB \<in> runs scenarioB ([Exit 0 None, Exit 1 None] @ [Exit 2 None])"
    unfolding runs_def r2 by (simp add: traceB_def fatal_error_def)
  from silent_exit_benign [OF h1 h2 h3 h4 h5, of None] t
  have "(\<forall>i<4. count_list traceB (EvStart i) = 1 \<and> count_list traceB (EvStop i) = 1)
         \<and> last traceB = EvClose"
    unfolding n by blast
  then have "count_list traceB (EvStop 0) = 1" "count_list traceB (EvStop 1) = 1"
    "count_list traceB (EvStop 2) = 1" "count_list traceB (EvStop 3) = 1" "last traceB = EvClose"
    by simp_all
  then show ?thesis
    using p(2) m h4 h5 r1 r2 t by (intro conjI) assumption+
qed

end
